theory Spec2Isabelle
  imports Complex_Main "HOL-Library.Sublist" "HOL-Library.AList"
begin

section \<open>JavaScript values and template strings\<close>

text \<open>
  Values that cross the queue and the lock are opaque to both modules. \<open>Value s\<close> is any
  value that is not an error object, \<open>Error m\<close> is \<^verbatim>\<open>new Error(m)\<close>, and \<open>Errno c\<close> is a
  Node system error whose \<^verbatim>\<open>code\<close> property is \<open>c\<close>.
\<close>

datatype js_value = Value string | Error string | Errno string

text \<open>The outcome of a promise: what a task settles with, and what is passed on to a caller.\<close>

datatype outcome = Fulfilled js_value | Rejected js_value

text \<open>
  Template literals print integers in decimal; \<open>show_int\<close> is \<^verbatim>\<open>`${n}`\<close> for an
  integral number and \<open>show_nat\<close> the same for a length.
\<close>

definition digit_char :: "int \<Rightarrow> char" where
  "digit_char d = ''0123456789'' ! nat d"

function show_digits :: "int \<Rightarrow> string" where
  "show_digits i =
     (if i < 10 then [digit_char i] else show_digits (i div 10) @ [digit_char (i mod 10)])"
  by pat_completeness auto

termination show_digits
  by (relation "measure nat") auto

declare show_digits.simps [simp del]

definition show_int :: "int \<Rightarrow> string" where
  "show_int i = (if i < 0 then CHR ''-'' # show_digits (- i) else show_digits i)"

definition show_nat :: "nat \<Rightarrow> string" where
  "show_nat n = show_int (int n)"

text \<open>
  \<^verbatim>\<open>String.prototype.trim\<close> on the ASCII white space and line terminators (tab, line feed,
  vertical tab, form feed, carriage return, space).
\<close>

definition is_white :: "char \<Rightarrow> bool" where
  "is_white c = (c \<in> set [CHR 0x09, CHR 0x0A, CHR 0x0B, CHR 0x0C, CHR 0x0D, CHR '' ''])"

definition trim :: "string \<Rightarrow> string" where
  "trim s = rev (dropWhile is_white (rev (dropWhile is_white s)))"

text \<open>
  \<^verbatim>\<open>Number.parseInt(s, 10)\<close>: leading white space, an optional sign, then the longest run
  of decimal digits; \<open>None\<close> is \<^verbatim>\<open>NaN\<close>.
\<close>

definition is_digit :: "char \<Rightarrow> bool" where
  "is_digit c = (c \<in> set ''0123456789'')"

definition digit_val :: "char \<Rightarrow> int" where
  "digit_val c = of_char c - 48"

definition digits_to_int :: "string \<Rightarrow> int" where
  "digits_to_int ds = foldl (\<lambda>acc c. 10 * acc + digit_val c) 0 ds"

definition parseInt :: "string \<Rightarrow> int option" where
  "parseInt s =
     (let t = dropWhile is_white s;
          neg = (case t of [] \<Rightarrow> False | c # _ \<Rightarrow> c = CHR ''-'');
          u = (case t of [] \<Rightarrow> [] | c # r \<Rightarrow> if c = CHR ''-'' \<or> c = CHR ''+'' then r else t);
          ds = takeWhile is_digit u
      in if ds = [] then None
         else Some ((if neg then - 1 else 1) * digits_to_int ds))"

section \<open>The command queue (src/process/command-queue.ts)\<close>

subsection \<open>Data\<close>

text \<open>
  A queue entry holds three closures. The task and the caller's promise (\<^verbatim>\<open>resolve\<close>,
  \<^verbatim>\<open>reject\<close>) are identified by the entry's number \<open>task\<close>, the position of the enqueue
  call among the enqueue calls of its lane; \<open>onWait\<close> records whether the optional
  callback was given.
\<close>

record QueueEntry =
  task :: nat
  enqueuedAt :: int
  warnAfterMs :: int
  onWait :: bool

record LaneState =
  lane :: string
  queue :: "QueueEntry list"
  active :: int
  maxConcurrent :: int
  draining :: bool

definition DEFAULT_LANE_TASK_TIMEOUT_MS :: int where
  "DEFAULT_LANE_TASK_TIMEOUT_MS = 300000"

definition MIN_LANE_TASK_TIMEOUT_MS :: int where
  "MIN_LANE_TASK_TIMEOUT_MS = 5000"

text \<open>
  Modelled from the spec: the default lane constant \<^verbatim>\<open>CommandLane.Main\<close> of
  \<^verbatim>\<open>./lanes.js\<close>, which is not among the sources; the spec only says that an empty name
  maps to a default lane constant. No theorem below depends on its value.
\<close>

definition CommandLane_Main :: string where
  "CommandLane_Main = ''main''"

text \<open>
  The local variables of one run of the asynchronous function that the pump starts for an
  entry: the timer is armed by \<^verbatim>\<open>setTimeout\<close>, cleared by \<^verbatim>\<open>clearTimeout\<close> or fired by
  the event loop; \<open>result\<close> is \<open>None\<close> while \<^verbatim>\<open>await entry.task()\<close> is pending.
\<close>

datatype timer = Armed | Cleared | Fired

record Launch =
  startTime :: int
  LANE_TASK_TIMEOUT_MS :: int
  settled :: bool
  timeoutId :: timer
  result :: "outcome option"

datatype level = Debug | Warn | Err

text \<open>
  A lane together with what its closures hold and what it has done to the outside: the
  runs it has launched, the calls of \<^verbatim>\<open>entry.resolve\<close> and \<^verbatim>\<open>entry.reject\<close>, the calls
  of \<^verbatim>\<open>entry.task\<close>, the calls of \<^verbatim>\<open>onWait\<close> and the lines given to the diagnostic
  logger, each in the order of the calls. \<open>next_task\<close> numbers the entries. The lane
  objects are never removed from the registry nor replaced, so a closure's reference to
  its lane object is the lane's name. The calls of \<^verbatim>\<open>logLaneEnqueue\<close> and
  \<^verbatim>\<open>logLaneDequeue\<close>, which only report to the diagnostics module, are left out.
\<close>

record lane_world =
  state :: LaneState
  launched :: "nat \<rightharpoonup> Launch"
  settle_calls :: "(nat \<times> outcome) list"
  task_calls :: "nat list"
  onWait_calls :: "(nat \<times> int \<times> nat) list"
  diag :: "(level \<times> string) list"
  next_task :: nat

type_synonym lanes = "string \<rightharpoonup> lane_world"

text \<open>What a call reads from its surroundings: the clock and the environment variable.\<close>

record env =
  Date_now :: int
  OPENCLAW_LANE_TASK_TIMEOUT_MS :: "string option"

subsection \<open>The lane registry\<close>

definition created :: "string \<Rightarrow> lane_world" where
  "created nm =
     \<lparr>state = \<lparr>lane = nm, queue = [], active = 0, maxConcurrent = 1, draining = False\<rparr>,
      launched = Map.empty, settle_calls = [], task_calls = [], onWait_calls = [],
      diag = [], next_task = 0\<rparr>"

definition getLaneState :: "string \<Rightarrow> lanes \<Rightarrow> lane_world \<times> lanes" where
  "getLaneState nm L =
     (case L nm of
        Some existing \<Rightarrow> (existing, L)
      | None \<Rightarrow> (created nm, L(nm \<mapsto> created nm)))"

definition cleaned_lane :: "string \<Rightarrow> string" where
  "cleaned_lane nm = (if trim nm = [] then CommandLane_Main else trim nm)"

subsection \<open>The pump\<close>

definition lane_task_timeout :: "string option \<Rightarrow> int" where
  "lane_task_timeout timeoutEnv =
     (let parsedTimeout =
            (case timeoutEnv of
               None \<Rightarrow> Some DEFAULT_LANE_TASK_TIMEOUT_MS
             | Some v \<Rightarrow> if v = [] then Some DEFAULT_LANE_TASK_TIMEOUT_MS else parseInt v)
      in case parsedTimeout of
           None \<Rightarrow> DEFAULT_LANE_TASK_TIMEOUT_MS
         | Some n \<Rightarrow>
             if n > 0 then max n MIN_LANE_TASK_TIMEOUT_MS else DEFAULT_LANE_TASK_TIMEOUT_MS)"

definition wait_warning :: "string \<Rightarrow> int \<Rightarrow> nat \<Rightarrow> string" where
  "wait_warning nm waitedMs queueAhead =
     ''lane wait exceeded: lane='' @ nm @ '' waitedMs='' @ show_int waitedMs
       @ '' queueAhead='' @ show_nat queueAhead"

text \<open>
  The part of the asynchronous function that runs inside the pump's loop: it reads the
  clock and the environment, arms the timer and calls the task, then stops at the
  \<^verbatim>\<open>await\<close>.
\<close>

definition launch :: "env \<Rightarrow> QueueEntry \<Rightarrow> lane_world \<Rightarrow> lane_world" where
  "launch e entry w =
     w\<lparr>launched := (launched w)(task entry \<mapsto>
          \<lparr>startTime = Date_now e,
           LANE_TASK_TIMEOUT_MS = lane_task_timeout (OPENCLAW_LANE_TASK_TIMEOUT_MS e),
           settled = False, timeoutId = Armed, result = None\<rparr>),
       task_calls := task_calls w @ [task entry]\<rparr>"

text \<open>One pass through the body of the \<^verbatim>\<open>while\<close> loop of \<^verbatim>\<open>pump\<close>.\<close>

definition pump_body :: "env \<Rightarrow> lane_world \<Rightarrow> lane_world" where
  "pump_body e w =
     (case queue (state w) of
        [] \<Rightarrow> w
      | entry # rest \<Rightarrow>
          let w1 = w\<lparr>state := (state w)\<lparr>queue := rest\<rparr>\<rparr>;
              waitedMs = Date_now e - enqueuedAt entry;
              w2 = (if waitedMs \<ge> warnAfterMs entry
                    then w1\<lparr>onWait_calls :=
                              (if onWait entry
                               then onWait_calls w1 @ [(task entry, waitedMs, length rest)]
                               else onWait_calls w1),
                            diag := diag w1 @
                              [(Warn, wait_warning (lane (state w1)) waitedMs (length rest))]\<rparr>
                    else w1);
              w3 = w2\<lparr>state := (state w2)\<lparr>active := active (state w2) + 1\<rparr>\<rparr>
          in launch e entry w3)"

function pump_loop :: "env \<Rightarrow> lane_world \<Rightarrow> lane_world" where
  "pump_loop e w =
     (if active (state w) < maxConcurrent (state w) \<and> queue (state w) \<noteq> []
      then pump_loop e (pump_body e w)
      else w)"
  by pat_completeness auto

termination pump_loop
  by (relation "measure (\<lambda>(e, w). length (queue (state w)))")
    (auto simp add: pump_body_def launch_def Let_def split: list.splits)

declare pump_loop.simps [simp del]

definition pump :: "env \<Rightarrow> lane_world \<Rightarrow> lane_world" where
  "pump e w = (let w' = pump_loop e w in w'\<lparr>state := (state w')\<lparr>draining := False\<rparr>\<rparr>)"

definition drainLane :: "env \<Rightarrow> lane_world \<Rightarrow> lane_world" where
  "drainLane e w =
     (if draining (state w) then w
      else pump e (w\<lparr>state := (state w)\<lparr>draining := True\<rparr>\<rparr>))"

subsection \<open>Resumptions of a launched run\<close>

text \<open>\<^verbatim>\<open>String(err)\<close> for the values of the model.\<close>

definition String_of :: "js_value \<Rightarrow> string" where
  "String_of v = (case v of Value s \<Rightarrow> s | Error m \<Rightarrow> ''Error: '' @ m | Errno c \<Rightarrow> ''Error: '' @ c)"

definition timeout_warning :: "string \<Rightarrow> int \<Rightarrow> int \<Rightarrow> int \<Rightarrow> nat \<Rightarrow> string" where
  "timeout_warning nm durationMs timeoutMs act queued =
     ''lane task timeout: lane='' @ nm @ '' durationMs='' @ show_int durationMs
       @ '' timeoutMs='' @ show_int timeoutMs @ '' active='' @ show_int act
       @ '' queued='' @ show_nat queued"

definition timeout_error :: "int \<Rightarrow> js_value" where
  "timeout_error timeoutMs = Error (''Lane task timed out after '' @ show_int timeoutMs @ ''ms'')"

definition done_message :: "string \<Rightarrow> int \<Rightarrow> int \<Rightarrow> nat \<Rightarrow> string" where
  "done_message nm durationMs act queued =
     ''lane task done: lane='' @ nm @ '' durationMs='' @ show_int durationMs
       @ '' active='' @ show_int act @ '' queued='' @ show_nat queued"

definition error_message :: "string \<Rightarrow> int \<Rightarrow> js_value \<Rightarrow> string" where
  "error_message nm durationMs err =
     ''lane task error: lane='' @ nm @ '' durationMs='' @ show_int durationMs
       @ '' error=\"'' @ String_of err @ ''\"''"

definition isProbeLane :: "string \<Rightarrow> bool" where
  "isProbeLane nm = (prefix ''auth-probe:'' nm \<or> prefix ''session:probe-'' nm)"

definition clearTimeout :: "timer \<Rightarrow> timer" where
  "clearTimeout t = (if t = Armed then Cleared else t)"

text \<open>
  The callback given to \<^verbatim>\<open>setTimeout\<close>. The event loop runs it only for a timer that is
  armed: not before the run was launched, not twice, and not after \<^verbatim>\<open>clearTimeout\<close>.
  The model lets an armed timer fire at any moment, also before its delay has passed.
\<close>

definition timer_fired :: "env \<Rightarrow> nat \<Rightarrow> lane_world \<Rightarrow> lane_world" where
  "timer_fired e t w =
     (case launched w t of
        None \<Rightarrow> w
      | Some r \<Rightarrow>
          if timeoutId r \<noteq> Armed then w
          else if settled r then w\<lparr>launched := (launched w)(t \<mapsto> r\<lparr>timeoutId := Fired\<rparr>)\<rparr>
          else
            let w1 = w\<lparr>launched := (launched w)(t \<mapsto> r\<lparr>timeoutId := Fired, settled := True\<rparr>),
                       state := (state w)\<lparr>active := active (state w) - 1\<rparr>\<rparr>;
                w2 = w1\<lparr>diag := diag w1 @
                       [(Warn, timeout_warning (lane (state w1)) (Date_now e - startTime r)
                                 (LANE_TASK_TIMEOUT_MS r) (active (state w1))
                                 (length (queue (state w1))))]\<rparr>;
                w3 = pump e w2
            in w3\<lparr>settle_calls := settle_calls w3 @
                     [(t, Rejected (timeout_error (LANE_TASK_TIMEOUT_MS r)))]\<rparr>)"

text \<open>
  The continuation of \<^verbatim>\<open>await entry.task()\<close>: the \<^verbatim>\<open>try\<close> branch for a fulfilled task,
  the \<^verbatim>\<open>catch\<close> branch for a rejected one. A task's promise settles at most once, and
  only after the task was called.
\<close>

definition task_settled :: "env \<Rightarrow> nat \<Rightarrow> outcome \<Rightarrow> lane_world \<Rightarrow> lane_world" where
  "task_settled e t out w =
     (case launched w t of
        None \<Rightarrow> w
      | Some r \<Rightarrow>
          if result r \<noteq> None then w
          else if settled r then w\<lparr>launched := (launched w)(t \<mapsto> r\<lparr>result := Some out\<rparr>)\<rparr>
          else
            let w1 = w\<lparr>launched := (launched w)(t \<mapsto>
                         r\<lparr>result := Some out, settled := True,
                           timeoutId := clearTimeout (timeoutId r)\<rparr>),
                       state := (state w)\<lparr>active := active (state w) - 1\<rparr>\<rparr>;
                durationMs = Date_now e - startTime r;
                w2 = (case out of
                        Fulfilled v \<Rightarrow>
                          w1\<lparr>diag := diag w1 @
                            [(Debug, done_message (lane (state w1)) durationMs
                                       (active (state w1)) (length (queue (state w1))))]\<rparr>
                      | Rejected err \<Rightarrow>
                          if isProbeLane (lane (state w1)) then w1
                          else w1\<lparr>diag := diag w1 @
                            [(Err, error_message (lane (state w1)) durationMs err)]\<rparr>);
                w3 = pump e w2
            in w3\<lparr>settle_calls := settle_calls w3 @ [(t, out)]\<rparr>)"

subsection \<open>The exported functions\<close>

definition setCommandLaneConcurrency :: "env \<Rightarrow> string \<Rightarrow> real \<Rightarrow> lanes \<Rightarrow> lanes" where
  "setCommandLaneConcurrency e nm n L =
     (let cleaned = cleaned_lane nm;
          (w, L1) = getLaneState cleaned L;
          w1 = w\<lparr>state := (state w)\<lparr>maxConcurrent := max 1 \<lfloor>n\<rfloor>\<rparr>\<rparr>
      in L1(cleaned \<mapsto> drainLane e w1))"

text \<open>
  The promise returned to the caller is settled by the entry's \<^verbatim>\<open>resolve\<close> and
  \<^verbatim>\<open>reject\<close> only; it is named by the lane and the entry's number.
\<close>

definition enqueueCommandInLane ::
  "env \<Rightarrow> string \<Rightarrow> int option \<Rightarrow> bool \<Rightarrow> lanes \<Rightarrow> (string \<times> nat) \<times> lanes" where
  "enqueueCommandInLane e nm opt_warnAfterMs opt_onWait L =
     (let cleaned = cleaned_lane nm;
          warnAfter = (case opt_warnAfterMs of None \<Rightarrow> 2000 | Some v \<Rightarrow> v);
          (w, L1) = getLaneState cleaned L;
          entry = \<lparr>task = next_task w, enqueuedAt = Date_now e, warnAfterMs = warnAfter,
                   onWait = opt_onWait\<rparr>;
          w1 = w\<lparr>state := (state w)\<lparr>queue := queue (state w) @ [entry]\<rparr>,
                 next_task := next_task w + 1\<rparr>
      in ((cleaned, task entry), L1(cleaned \<mapsto> drainLane e w1)))"

definition enqueueCommand ::
  "env \<Rightarrow> int option \<Rightarrow> bool \<Rightarrow> lanes \<Rightarrow> (string \<times> nat) \<times> lanes" where
  "enqueueCommand e opt_warnAfterMs opt_onWait L =
     enqueueCommandInLane e CommandLane_Main opt_warnAfterMs opt_onWait L"

text \<open>\<^verbatim>\<open>getTotalQueueSize\<close>, the sum of \<^verbatim>\<open>getQueueSize\<close> over the registry, is left out.\<close>

definition getQueueSize :: "string \<Rightarrow> lanes \<Rightarrow> int" where
  "getQueueSize nm L =
     (case L (cleaned_lane nm) of
        None \<Rightarrow> 0
      | Some w \<Rightarrow> int (length (queue (state w))) + active (state w))"

definition clearCommandLane :: "string \<Rightarrow> lanes \<Rightarrow> int \<times> lanes" where
  "clearCommandLane nm L =
     (let cleaned = cleaned_lane nm
      in case L cleaned of
           None \<Rightarrow> (0, L)
         | Some w \<Rightarrow>
             (int (length (queue (state w))),
              L(cleaned \<mapsto> w\<lparr>state := (state w)\<lparr>queue := []\<rparr>\<rparr>)))"

subsection \<open>Executions\<close>

text \<open>
  JavaScript runs one callback at a time. An execution is a sequence of events, each run
  to completion: a call of an exported function, the settling of a launched task, or the
  firing of a launched run's timer. The last two name the lane by the name its closures
  hold. Tasks and \<^verbatim>\<open>onWait\<close> callbacks are taken to return without an exception and
  without calling back into the queue before they return.
\<close>

datatype event =
    Enqueue string "int option" bool
  | SetConcurrency string real
  | ClearLane string
  | TaskSettled string nat outcome
  | TimerFired string nat

fun step :: "env \<Rightarrow> event \<Rightarrow> lanes \<Rightarrow> lanes" where
  "step e (Enqueue nm wa ow) L = snd (enqueueCommandInLane e nm wa ow L)"
| "step e (SetConcurrency nm n) L = setCommandLaneConcurrency e nm n L"
| "step e (ClearLane nm) L = snd (clearCommandLane nm L)"
| "step e (TaskSettled nm t out) L =
     (case L nm of None \<Rightarrow> L | Some w \<Rightarrow> L(nm \<mapsto> task_settled e t out w))"
| "step e (TimerFired nm t) L =
     (case L nm of None \<Rightarrow> L | Some w \<Rightarrow> L(nm \<mapsto> timer_fired e t w))"

fun run :: "(env \<times> event) list \<Rightarrow> lanes \<Rightarrow> lanes" where
  "run [] L = L"
| "run ((e, ev) # evs) L = run evs (step e ev L)"

section \<open>The session write lock (src/agents/session-write-lock.ts)\<close>

subsection \<open>Data\<close>

text \<open>
  The text of a \<^verbatim>\<open>createdAt\<close> field stands for what \<^verbatim>\<open>Date.parse\<close> makes of it: \<open>ISO t\<close>
  is a text that \<^verbatim>\<open>Date.parse\<close> reads as the instant \<open>t\<close> (milliseconds since the epoch),
  as \<^verbatim>\<open>new Date(t).toISOString()\<close> writes it, and \<open>NotADate s\<close> is a text \<open>s\<close> on which
  \<^verbatim>\<open>Date.parse\<close> gives \<^verbatim>\<open>NaN\<close>.
\<close>

datatype date_text = ISO int | NotADate string

definition Date_parse :: "date_text \<Rightarrow> int option" where
  "Date_parse s = (case s of ISO t \<Rightarrow> Some t | NotADate x \<Rightarrow> None)"

definition toISOString :: "int \<Rightarrow> date_text" where
  "toISOString t = ISO t"

definition nonempty_text :: "date_text \<Rightarrow> bool" where
  "nonempty_text s = (case s of ISO t \<Rightarrow> True | NotADate x \<Rightarrow> x \<noteq> [])"

text \<open>
  What \<^verbatim>\<open>JSON.parse\<close> makes of a file: it throws on \<open>Unparsable\<close> text (an empty file, for
  one) and gives a value otherwise. Numbers are integers in the model.
\<close>

datatype json = JNull | JNum int | JStr date_text | JObj "(string \<times> json) list"

datatype file_content = Unparsable | Json json

record LockFilePayload =
  pid :: int
  createdAt :: date_text

record HeldLock =
  count :: int
  handle :: nat
  lockPath :: string

text \<open>The result of \<^verbatim>\<open>process.kill(pid, 0)\<close>: it returns, or throws an error with a code.\<close>

datatype kill_result = Delivered | Failed string

datatype fs_op =
    Mkdir string | Realpath string | OpenWx string | WriteFile nat | ReadFile string
  | Rm string | Close nat | Readdir string

text \<open>
  The process and what it sees of the machine: the registry \<^verbatim>\<open>HELD_LOCKS\<close>, the regular
  files by path, the directories, the directories whose real path differs from their
  path, the open file handles with the path each was opened on, the paths that cannot be
  removed, the process table, the clock and the process's own pid and working directory.
  \<open>fs_log\<close> lists the file-system calls made, in order. Paths are absolute and normalized.
  The crash sweep (\<^verbatim>\<open>releaseAllLocksSync\<close> and the signal handlers) is not part of the
  model; \<open>cleanupRegistered\<close> only records that the handlers were installed.
\<close>

record world =
  HELD_LOCKS :: "string \<rightharpoonup> HeldLock"
  files :: "(string \<times> file_content) list"
  dirs :: "string list"
  links :: "string \<rightharpoonup> string"
  open_handles :: "nat \<rightharpoonup> string"
  next_handle :: nat
  protected :: "string list"
  kill0 :: "int \<Rightarrow> kill_result"
  clock :: int
  process_pid :: int
  cwd :: string
  cleanupRegistered :: bool
  fs_log :: "fs_op list"

subsection \<open>Paths\<close>

definition dir_prefix :: "string \<Rightarrow> string" where
  "dir_prefix d = (if d = ''/'' then d else d @ ''/'')"

definition path_join :: "string \<Rightarrow> string \<Rightarrow> string" where
  "path_join d n = dir_prefix d @ n"

definition path_basename :: "string \<Rightarrow> string" where
  "path_basename p = rev (takeWhile (\<lambda>c. c \<noteq> CHR ''/'') (rev p))"

definition path_dirname :: "string \<Rightarrow> string" where
  "path_dirname p =
     (let d = rev (drop 1 (dropWhile (\<lambda>c. c \<noteq> CHR ''/'') (rev p)))
      in if d = [] then (if CHR ''/'' \<in> set p then ''/'' else ''.'') else d)"

definition path_resolve :: "string \<Rightarrow> string \<Rightarrow> string" where
  "path_resolve wd p = (if prefix ''/'' p then p else path_join wd p)"

subsection \<open>File-system calls\<close>

text \<open>
  Each call is logged and returns \<open>Inl\<close> of the error it throws or \<open>Inr\<close> of its value.
  \<^verbatim>\<open>mkdir\<close> is the recursive one, which accepts an existing directory and fails on a
  regular file; \<^verbatim>\<open>rm\<close> is the forced one, which accepts a missing file.
\<close>

definition fs_mkdir :: "string \<Rightarrow> world \<Rightarrow> (js_value + unit) \<times> world" where
  "fs_mkdir d w =
     (let w1 = w\<lparr>fs_log := fs_log w @ [Mkdir d]\<rparr>
      in if map_of (files w) d \<noteq> None then (Inl (Errno ''EEXIST''), w1)
         else (Inr (), w1\<lparr>dirs := List.insert d (dirs w1)\<rparr>))"

definition fs_realpath :: "string \<Rightarrow> world \<Rightarrow> (js_value + string) \<times> world" where
  "fs_realpath d w =
     (let w1 = w\<lparr>fs_log := fs_log w @ [Realpath d]\<rparr>
      in if d \<in> set (dirs w)
         then (Inr (case links w d of None \<Rightarrow> d | Some target \<Rightarrow> target), w1)
         else (Inl (Errno ''ENOENT''), w1))"

definition fs_open_wx :: "string \<Rightarrow> world \<Rightarrow> (js_value + nat) \<times> world" where
  "fs_open_wx p w =
     (let w1 = w\<lparr>fs_log := fs_log w @ [OpenWx p]\<rparr>
      in if path_dirname p \<notin> set (dirs w) then (Inl (Errno ''ENOENT''), w1)
         else if map_of (files w) p \<noteq> None then (Inl (Errno ''EEXIST''), w1)
         else (Inr (next_handle w),
               w1\<lparr>files := AList.update p Unparsable (files w1),
                  open_handles := (open_handles w1)(next_handle w \<mapsto> p),
                  next_handle := next_handle w + 1\<rparr>))"

definition handle_writeFile :: "nat \<Rightarrow> file_content \<Rightarrow> world \<Rightarrow> (js_value + unit) \<times> world" where
  "handle_writeFile h content w =
     (let w1 = w\<lparr>fs_log := fs_log w @ [WriteFile h]\<rparr>
      in case open_handles w h of
           None \<Rightarrow> (Inl (Errno ''EBADF''), w1)
         | Some p \<Rightarrow> (Inr (), w1\<lparr>files := AList.update p content (files w1)\<rparr>))"

definition handle_close :: "nat \<Rightarrow> world \<Rightarrow> world" where
  "handle_close h w =
     w\<lparr>fs_log := fs_log w @ [Close h], open_handles := (open_handles w)(h := None)\<rparr>"

definition fs_readFile :: "string \<Rightarrow> world \<Rightarrow> (js_value + file_content) \<times> world" where
  "fs_readFile p w =
     (let w1 = w\<lparr>fs_log := fs_log w @ [ReadFile p]\<rparr>
      in case map_of (files w) p of
           None \<Rightarrow> (Inl (Errno ''ENOENT''), w1)
         | Some f \<Rightarrow> (Inr f, w1))"

definition fs_rm :: "string \<Rightarrow> world \<Rightarrow> (js_value + unit) \<times> world" where
  "fs_rm p w =
     (let w1 = w\<lparr>fs_log := fs_log w @ [Rm p]\<rparr>
      in if p \<in> set (protected w) then (Inl (Errno ''EACCES''), w1)
         else (Inr (), w1\<lparr>files := AList.delete p (files w1)\<rparr>))"

definition is_child :: "string \<Rightarrow> string \<Rightarrow> bool" where
  "is_child d p \<longleftrightarrow>
     prefix (dir_prefix d) p \<and> length (dir_prefix d) < length p
     \<and> CHR ''/'' \<notin> set (drop (length (dir_prefix d)) p)"

definition dir_entries :: "string \<Rightarrow> (string \<times> file_content) list \<Rightarrow> string list" where
  "dir_entries d fs = map (drop (length (dir_prefix d))) (filter (is_child d) (map fst fs))"

definition fs_readdir :: "string \<Rightarrow> world \<Rightarrow> (js_value + string list) \<times> world" where
  "fs_readdir d w =
     (let w1 = w\<lparr>fs_log := fs_log w @ [Readdir d]\<rparr>
      in if d \<in> set (dirs w) then (Inr (dir_entries d (files w)), w1)
         else (Inl (Errno ''ENOENT''), w1))"

subsection \<open>The functions of the module\<close>

definition isAlive :: "int \<Rightarrow> world \<Rightarrow> bool" where
  "isAlive p w =
     (if p \<le> 0 then False
      else case kill0 w p of
             Delivered \<Rightarrow> True
           | Failed code \<Rightarrow> if code = ''EPERM'' then True else False)"

definition registerCleanupHandlers :: "world \<Rightarrow> world" where
  "registerCleanupHandlers w = (if cleanupRegistered w then w else w\<lparr>cleanupRegistered := True\<rparr>)"

text \<open>
  \<^verbatim>\<open>readLockPayload\<close>: every exception of the \<^verbatim>\<open>try\<close> block gives \<^verbatim>\<open>null\<close>: a missing
  file, text that is not JSON, and the property access on \<^verbatim>\<open>null\<close>. A value that is no
  object has neither property.
\<close>

definition readLockPayload :: "string \<Rightarrow> world \<Rightarrow> LockFilePayload option \<times> world" where
  "readLockPayload lp w =
     (case fs_readFile lp w of
        (Inl err, w1) \<Rightarrow> (None, w1)
      | (Inr Unparsable, w1) \<Rightarrow> (None, w1)
      | (Inr (Json parsed), w1) \<Rightarrow>
          (case parsed of
             JObj props \<Rightarrow>
               (case map_of props ''pid'' of
                  Some (JNum p) \<Rightarrow>
                    (case map_of props ''createdAt'' of
                       Some (JStr c) \<Rightarrow> (Some \<lparr>pid = p, createdAt = c\<rparr>, w1)
                     | _ \<Rightarrow> (None, w1))
                | _ \<Rightarrow> (None, w1))
           | _ \<Rightarrow> (None, w1)))"

text \<open>
  The closure \<^verbatim>\<open>release\<close> that \<^verbatim>\<open>acquireSessionWriteLock\<close> returns. Its two occurrences
  in the source have the same body, and the only variable either captures is
  \<^verbatim>\<open>normalizedSessionFile\<close>; the registry is read when the closure is called.
\<close>

datatype release_closure = Release string

fun release :: "release_closure \<Rightarrow> world \<Rightarrow> (js_value + unit) \<times> world" where
  "release (Release normalizedSessionFile) w =
     (case HELD_LOCKS w normalizedSessionFile of
        None \<Rightarrow> (Inr (), w)
      | Some current \<Rightarrow>
          if count current - 1 > 0
          then (Inr (),
                w\<lparr>HELD_LOCKS := (HELD_LOCKS w)(normalizedSessionFile \<mapsto>
                                  current\<lparr>count := count current - 1\<rparr>)\<rparr>)
          else
            let w1 = w\<lparr>HELD_LOCKS := (HELD_LOCKS w)(normalizedSessionFile := None)\<rparr>;
                w2 = handle_close (handle current) w1
            in fs_rm (lockPath current) w2)"

text \<open>How one pass through the body of the acquisition loop ends.\<close>

datatype control = Return release_closure | Throw js_value | Continue | Sleep int

definition error_code :: "js_value \<Rightarrow> string option" where
  "error_code err = (case err of Errno c \<Rightarrow> Some c | Value v \<Rightarrow> None | Error m \<Rightarrow> None)"

text \<open>The \<^verbatim>\<open>catch\<close> block of the loop; \<open>attempt\<close> is the counter after its increment.\<close>

definition lock_contended ::
  "string \<Rightarrow> int \<Rightarrow> int \<Rightarrow> js_value \<Rightarrow> world \<Rightarrow> control \<times> world" where
  "lock_contended lp stale attempt err w =
     (if error_code err \<noteq> Some ''EEXIST'' then (Throw err, w)
      else
        let (payload, w1) = readLockPayload lp w;
            created_at = (case payload of
                            None \<Rightarrow> None
                          | Some p \<Rightarrow> if nonempty_text (createdAt p)
                                       then Date_parse (createdAt p) else None);
            is_stale = (case created_at of None \<Rightarrow> True | Some c \<Rightarrow> clock w1 - c > stale);
            alive = (case payload of
                       None \<Rightarrow> False
                     | Some p \<Rightarrow> if pid p \<noteq> 0 then isAlive (pid p) w1 else False)
        in if is_stale \<or> \<not> alive
           then (case fs_rm lp w1 of
                   (Inl e, w2) \<Rightarrow> (Throw e, w2)
                 | (Inr u, w2) \<Rightarrow> (Continue, w2))
           else (Sleep (min 1000 (50 * attempt)), w1))"

definition lock_attempt ::
  "string \<Rightarrow> string \<Rightarrow> int \<Rightarrow> int \<Rightarrow> world \<Rightarrow> control \<times> world" where
  "lock_attempt normalizedSessionFile lp stale attempt w =
     (case fs_open_wx lp w of
        (Inl err, w1) \<Rightarrow> lock_contended lp stale attempt err w1
      | (Inr h, w1) \<Rightarrow>
          (case handle_writeFile h
                  (Json (JObj [(''pid'', JNum (process_pid w1)),
                               (''createdAt'', JStr (toISOString (clock w1)))])) w1 of
             (Inl err, w2) \<Rightarrow> lock_contended lp stale attempt err w2
           | (Inr u, w2) \<Rightarrow>
               (Return (Release normalizedSessionFile),
                w2\<lparr>HELD_LOCKS := (HELD_LOCKS w2)(normalizedSessionFile \<mapsto>
                      \<lparr>count = 1, handle = h, lockPath = lp\<rparr>)\<rparr>)))"

definition lock_timeout_error :: "int \<Rightarrow> LockFilePayload option \<Rightarrow> string \<Rightarrow> js_value" where
  "lock_timeout_error tmo payload lp =
     (let owner = (case payload of
                     None \<Rightarrow> ''unknown''
                   | Some p \<Rightarrow> if pid p \<noteq> 0 then ''pid='' @ show_int (pid p) else ''unknown'')
      in Error (''session file locked (timeout '' @ show_int tmo @ ''ms): '' @ owner
                  @ '' '' @ lp))"

text \<open>
  The loop of \<^verbatim>\<open>acquireSessionWriteLock\<close> and the statements after it. While the function
  runs no other process changes the files, and the clock advances only while the
  function sleeps; a timer with a delay below one millisecond fires after one.
\<close>

function acquire_loop ::
  "string \<Rightarrow> string \<Rightarrow> int \<Rightarrow> int \<Rightarrow> int \<Rightarrow> int \<Rightarrow> world
     \<Rightarrow> (js_value + release_closure) \<times> world" where
  "acquire_loop normalizedSessionFile lp tmo stale startedAt attempt w =
     (if clock w - startedAt < tmo
      then (case lock_attempt normalizedSessionFile lp stale (attempt + 1) w of
              (Return r, w1) \<Rightarrow> (Inr r, w1)
            | (Throw err, w1) \<Rightarrow> (Inl err, w1)
            | (Continue, w1) \<Rightarrow>
                acquire_loop normalizedSessionFile lp tmo stale startedAt (attempt + 1) w1
            | (Sleep delay, w1) \<Rightarrow>
                acquire_loop normalizedSessionFile lp tmo stale startedAt (attempt + 1)
                  (w1\<lparr>clock := clock w1 + max 1 delay\<rparr>))
      else (let (payload, w1) = readLockPayload lp w
            in (Inl (lock_timeout_error tmo payload lp), w1)))"
  by pat_completeness auto

termination acquire_loop
  by (relation "measures
        [\<lambda>(k, lp, tmo, stale, startedAt, attempt, w). nat (tmo - (clock w - startedAt)),
         \<lambda>(k, lp, tmo, stale, startedAt, attempt, w). if map_of (files w) lp = None then 0 else 1]")
    (auto simp add: lock_attempt_def lock_contended_def fs_open_wx_def handle_writeFile_def
      readLockPayload_def fs_readFile_def fs_rm_def error_code_def Let_def delete_notin_dom
      map_of_eq_None_iff
      split: if_splits prod.splits sum.splits option.splits file_content.splits json.splits)

declare acquire_loop.simps [simp del]

record params =
  sessionFile :: string
  timeoutMs :: "int option"
  staleMs :: "int option"

definition acquireSessionWriteLock ::
  "params \<Rightarrow> world \<Rightarrow> (js_value + release_closure) \<times> world" where
  "acquireSessionWriteLock ps w =
     (let w0 = registerCleanupHandlers w;
          timeout_ms = (case timeoutMs ps of None \<Rightarrow> 10000 | Some v \<Rightarrow> v);
          stale_ms = (case staleMs ps of None \<Rightarrow> 30 * 60 * 1000 | Some v \<Rightarrow> v);
          session_file = path_resolve (cwd w0) (sessionFile ps);
          sessionDir = path_dirname session_file
      in case fs_mkdir sessionDir w0 of
           (Inl err, w1) \<Rightarrow> (Inl err, w1)
         | (Inr u, w1) \<Rightarrow>
             let (resolved, w2) = fs_realpath sessionDir w1;
                 normalizedDir = (case resolved of Inl err \<Rightarrow> sessionDir | Inr d \<Rightarrow> d);
                 normalizedSessionFile = path_join normalizedDir (path_basename session_file);
                 lp = normalizedSessionFile @ ''.lock''
             in case HELD_LOCKS w2 normalizedSessionFile of
                  Some held \<Rightarrow>
                    (Inr (Release normalizedSessionFile),
                     w2\<lparr>HELD_LOCKS := (HELD_LOCKS w2)(normalizedSessionFile \<mapsto>
                           held\<lparr>count := count held + 1\<rparr>)\<rparr>)
                | None \<Rightarrow>
                    acquire_loop normalizedSessionFile lp timeout_ms stale_ms (clock w2) 0 w2)"

text \<open>The \<^verbatim>\<open>for\<close> loop of \<^verbatim>\<open>cleanupOrphanedLocks\<close> over the names that end in \<^verbatim>\<open>.lock\<close>.\<close>

definition strip_lock_suffix :: "string \<Rightarrow> string" where
  "strip_lock_suffix p = (if suffix ''.lock'' p then take (length p - 5) p else p)"

fun cleanup_loop :: "string \<Rightarrow> string list \<Rightarrow> int \<Rightarrow> world \<Rightarrow> int \<times> world" where
  "cleanup_loop directory [] removed w = (removed, w)"
| "cleanup_loop directory (lockFile # rest) removed w =
     (let lp = path_join directory lockFile;
          session_file = strip_lock_suffix lp
      in if HELD_LOCKS w session_file \<noteq> None then cleanup_loop directory rest removed w
         else
           let (payload, w1) = readLockPayload lp w;
               orphaned = (case payload of None \<Rightarrow> True | Some p \<Rightarrow> \<not> isAlive (pid p) w1)
           in if orphaned
              then (case fs_rm lp w1 of
                      (Inr u, w2) \<Rightarrow> cleanup_loop directory rest (removed + 1) w2
                    | (Inl err, w2) \<Rightarrow> cleanup_loop directory rest removed w2)
              else cleanup_loop directory rest removed w1)"

definition cleanupOrphanedLocks :: "string \<Rightarrow> world \<Rightarrow> int \<times> world" where
  "cleanupOrphanedLocks directory w =
     (case fs_readdir directory w of
        (Inl err, w1) \<Rightarrow> (0, w1)
      | (Inr entries, w1) \<Rightarrow>
          cleanup_loop directory (filter (suffix ''.lock'') entries) 0 w1)"

section \<open>Notions for the properties of the command queue\<close>

subsection \<open>What holds in every reachable lane\<close>

text \<open>
  \<open>ids\<close> lists the entries of a lane that were started, in the order of their starts,
  followed by the entries that wait. \<open>running\<close> lists the started entries whose run has
  neither completed nor timed out, and \<open>calls_of\<close> the calls of \<^verbatim>\<open>resolve\<close> and
  \<^verbatim>\<open>reject\<close> made on the promise of one entry.
\<close>

definition ids :: "lane_world \<Rightarrow> nat list" where
  "ids w = task_calls w @ map task (queue (state w))"

definition unsettled :: "lane_world \<Rightarrow> nat \<Rightarrow> bool" where
  "unsettled w t = (case launched w t of None \<Rightarrow> False | Some r \<Rightarrow> \<not> settled r)"

definition running :: "lane_world \<Rightarrow> nat list" where
  "running w = filter (unsettled w) (task_calls w)"

definition calls_of :: "lane_world \<Rightarrow> nat \<Rightarrow> outcome list" where
  "calls_of w t = map snd (filter (\<lambda>c. fst c = t) (settle_calls w))"

definition run_ok :: "Launch \<Rightarrow> outcome list \<Rightarrow> bool" where
  "run_ok r cs =
     (case timeoutId r of
        Armed \<Rightarrow> \<not> settled r \<and> result r = None \<and> cs = []
      | Cleared \<Rightarrow> settled r \<and> (case result r of None \<Rightarrow> False | Some out \<Rightarrow> cs = [out])
      | Fired \<Rightarrow> settled r \<and> cs = [Rejected (timeout_error (LANE_TASK_TIMEOUT_MS r))])"

definition order_inv :: "lane_world \<Rightarrow> bool" where
  "order_inv w \<longleftrightarrow> sorted_wrt (<) (ids w) \<and> (\<forall>t\<in>set (ids w). t < next_task w)"

definition task_ok :: "lane_world \<Rightarrow> nat \<Rightarrow> bool" where
  "task_ok w t =
     (case launched w t of
        None \<Rightarrow> t \<notin> set (task_calls w) \<and> calls_of w t = []
      | Some r \<Rightarrow> t \<in> set (task_calls w) \<and> run_ok r (calls_of w t))"

definition runs_inv :: "lane_world \<Rightarrow> bool" where
  "runs_inv w \<longleftrightarrow> (\<forall>t. task_ok w t)"

definition active_inv :: "lane_world \<Rightarrow> bool" where
  "active_inv w \<longleftrightarrow> active (state w) = int (length (running w))"

definition lane_inv :: "lane_world \<Rightarrow> bool" where
  "lane_inv w \<longleftrightarrow> order_inv w \<and> runs_inv w \<and> active_inv w"


text \<open>The state just before the last statement of the timeout path and of the completion path,
  with the call on the caller's promise already recorded.\<close>

definition timeout_done :: "env \<Rightarrow> nat \<Rightarrow> Launch \<Rightarrow> lane_world \<Rightarrow> lane_world" where
  "timeout_done e t r w =
     w\<lparr>launched := (launched w)(t \<mapsto> r\<lparr>timeoutId := Fired, settled := True\<rparr>),
       state := (state w)\<lparr>active := active (state w) - 1\<rparr>,
       diag := diag w @
         [(Warn, timeout_warning (lane (state w)) (Date_now e - startTime r)
                   (LANE_TASK_TIMEOUT_MS r) (active (state w) - 1) (length (queue (state w))))],
       settle_calls := settle_calls w @ [(t, Rejected (timeout_error (LANE_TASK_TIMEOUT_MS r)))]\<rparr>"

definition completion_log :: "env \<Rightarrow> Launch \<Rightarrow> outcome \<Rightarrow> lane_world \<Rightarrow> (level \<times> string) list" where
  "completion_log e r out w =
     (case out of
        Fulfilled v \<Rightarrow>
          [(Debug, done_message (lane (state w)) (Date_now e - startTime r)
                     (active (state w) - 1) (length (queue (state w))))]
      | Rejected err \<Rightarrow>
          if isProbeLane (lane (state w)) then []
          else [(Err, error_message (lane (state w)) (Date_now e - startTime r) err)])"

definition completion_done :: "env \<Rightarrow> nat \<Rightarrow> Launch \<Rightarrow> outcome \<Rightarrow> lane_world \<Rightarrow> lane_world" where
  "completion_done e t r out w =
     w\<lparr>launched := (launched w)(t \<mapsto>
         r\<lparr>result := Some out, settled := True, timeoutId := clearTimeout (timeoutId r)\<rparr>),
       state := (state w)\<lparr>active := active (state w) - 1\<rparr>,
       diag := diag w @ completion_log e r out w,
       settle_calls := settle_calls w @ [(t, out)]\<rparr>"

definition lanes_all :: "(lane_world \<Rightarrow> bool) \<Rightarrow> lanes \<Rightarrow> bool" where
  "lanes_all P L \<longleftrightarrow> (\<forall>nm w. L nm = Some w \<longrightarrow> P w)"

text \<open>The lane object that \<^verbatim>\<open>getLaneState\<close> hands out for a name.\<close>

definition lane_of :: "lanes \<Rightarrow> string \<Rightarrow> lane_world" where
  "lane_of L nm = (case L nm of Some w \<Rightarrow> w | None \<Rightarrow> created nm)"

definition cap_ok :: "lane_world \<Rightarrow> bool" where
  "cap_ok w \<longleftrightarrow> active (state w) \<le> maxConcurrent (state w)"

text \<open>
  \<open>lowers_cap ev L\<close>: the event is a call of \<^verbatim>\<open>setCommandLaneConcurrency\<close> that sets the
  cap of its lane below the number of entries active on that lane. \<open>never_lowers\<close> says
  that no event of an execution does so.
\<close>

fun lowers_cap :: "event \<Rightarrow> lanes \<Rightarrow> bool" where
  "lowers_cap (SetConcurrency nm n) L =
     (case L (cleaned_lane nm) of
        None \<Rightarrow> False
      | Some w \<Rightarrow> max 1 \<lfloor>n\<rfloor> < active (state w))"
| "lowers_cap (Enqueue nm wa ow) L = False"
| "lowers_cap (ClearLane nm) L = False"
| "lowers_cap (TaskSettled nm t out) L = False"
| "lowers_cap (TimerFired nm t) L = False"

fun never_lowers :: "(env \<times> event) list \<Rightarrow> lanes \<Rightarrow> bool" where
  "never_lowers [] L = True"
| "never_lowers ((e, ev) # evs) L = (\<not> lowers_cap ev L \<and> never_lowers evs (step e ev L))"

fun is_clear :: "event \<Rightarrow> bool" where
  "is_clear (ClearLane nm) = True"
| "is_clear (Enqueue nm wa ow) = False"
| "is_clear (SetConcurrency nm n) = False"
| "is_clear (TaskSettled nm t out) = False"
| "is_clear (TimerFired nm t) = False"

text \<open>The event leaves every cap at one: it is no call of \<^verbatim>\<open>setCommandLaneConcurrency\<close> with
  a number of two or more.\<close>

fun keeps_cap_one :: "event \<Rightarrow> bool" where
  "keeps_cap_one (SetConcurrency nm n) = (\<lfloor>n\<rfloor> \<le> 1)"
| "keeps_cap_one (Enqueue nm wa ow) = True"
| "keeps_cap_one (ClearLane nm) = True"
| "keeps_cap_one (TaskSettled nm t out) = True"
| "keeps_cap_one (TimerFired nm t) = True"

text \<open>The event is a call of \<^verbatim>\<open>enqueueCommandInLane\<close> whose lane name is cleaned to \<open>nm\<close>.\<close>

fun enqueues_on :: "string \<Rightarrow> event \<Rightarrow> bool" where
  "enqueues_on nm (Enqueue x wa ow) = (cleaned_lane x = nm)"
| "enqueues_on nm (SetConcurrency x n) = False"
| "enqueues_on nm (ClearLane x) = False"
| "enqueues_on nm (TaskSettled x t out) = False"
| "enqueues_on nm (TimerFired x t) = False"

definition dense :: "lane_world \<Rightarrow> bool" where
  "dense w \<longleftrightarrow> ids w = [0..<next_task w]"

definition cap_one :: "lane_world \<Rightarrow> bool" where
  "cap_one w \<longleftrightarrow> maxConcurrent (state w) = 1 \<and> active (state w) \<le> 1"

definition dropped :: "nat \<Rightarrow> lane_world \<Rightarrow> bool" where
  "dropped t w \<longleftrightarrow> t < next_task w \<and> t \<notin> set (ids w)"

subsection \<open>Example executions\<close>

definition e0 :: env where
  "e0 = \<lparr>Date_now = 0, OPENCLAW_LANE_TASK_TIMEOUT_MS = None\<rparr>"

definition at_time :: "int \<Rightarrow> env" where
  "at_time n = \<lparr>Date_now = n, OPENCLAW_LANE_TASK_TIMEOUT_MS = None\<rparr>"

text \<open>Two entries run under a cap of two, then the cap is set to one.\<close>

definition lowering_run :: "(env \<times> event) list" where
  "lowering_run =
     [(e0, SetConcurrency ''main'' 2),
      (e0, Enqueue ''main'' None False),
      (e0, Enqueue ''main'' None False),
      (e0, SetConcurrency ''main'' 1)]"

text \<open>Three entries under a cap of two; one completes, one times out, and the cap is then set
  to the number of entries still active.\<close>

definition steady_run :: "(env \<times> event) list" where
  "steady_run =
     [(e0, SetConcurrency ''main'' (5 / 2)),
      (e0, Enqueue ''  main '' None False),
      (e0, Enqueue ''main'' (Some 10) True),
      (e0, Enqueue '''' None False),
      (at_time 40, TaskSettled ''main'' 0 (Fulfilled (Value ''done''))),
      (at_time 300000, TimerFired ''main'' 1),
      (at_time 300001, SetConcurrency ''main'' 1),
      (at_time 300002, TaskSettled ''main'' 1 (Rejected (Value ''late'')))]"

text \<open>One entry whose timer fires seven milliseconds late.\<close>

definition late_timer_run :: "(env \<times> event) list" where
  "late_timer_run =
     [(e0, Enqueue ''main'' None False),
      (at_time 300007, TimerFired ''main'' 0)]"

text \<open>Three entries on a lane of cap one; the first two complete in turn.\<close>

definition serial_run :: "(env \<times> event) list" where
  "serial_run =
     [(e0, Enqueue ''x'' None False),
      (e0, Enqueue ''x'' None False),
      (e0, Enqueue ''x'' None False),
      (at_time 50, TaskSettled ''x'' 0 (Fulfilled (Value ''A''))),
      (at_time 60, TaskSettled ''x'' 1 (Fulfilled (Value ''B'')))]"

text \<open>Three entries on a lane of cap one, of which two still wait; and what happens after the
  lane was cleared.\<close>

definition waiting_run :: "(env \<times> event) list" where
  "waiting_run =
     [(e0, Enqueue ''x'' None False),
      (e0, Enqueue ''x'' None False),
      (e0, Enqueue ''x'' None False)]"

definition after_clear_run :: "(env \<times> event) list" where
  "after_clear_run =
     [(at_time 50, TaskSettled ''x'' 0 (Fulfilled (Value ''A''))),
      (at_time 60, Enqueue ''x'' None False),
      (at_time 70, TaskSettled ''x'' 1 (Fulfilled (Value ''B''))),
      (at_time 80, TimerFired ''x'' 1),
      (at_time 90, TaskSettled ''x'' 3 (Fulfilled (Value ''D'')))]"

section \<open>Notions for the properties of the session write lock\<close>

subsection \<open>Canonical paths, stale locks and orphaned locks\<close>

text \<open>The directory and the canonical path that \<^verbatim>\<open>acquireSessionWriteLock\<close> computes for its
  argument, and the path of the lock file.\<close>

definition session_dir :: "params \<Rightarrow> world \<Rightarrow> string" where
  "session_dir ps w = path_dirname (path_resolve (cwd w) (sessionFile ps))"

definition canonical_path :: "params \<Rightarrow> world \<Rightarrow> string" where
  "canonical_path ps w =
     path_join (case links w (session_dir ps w) of None \<Rightarrow> session_dir ps w | Some d \<Rightarrow> d)
       (path_basename (path_resolve (cwd w) (sessionFile ps)))"

definition lock_path :: "params \<Rightarrow> world \<Rightarrow> string" where
  "lock_path ps w = canonical_path ps w @ ''.lock''"

text \<open>
  The condition of the spec under which an existing lock file is deleted at once: its
  payload cannot be read (no object with a number \<^verbatim>\<open>pid\<close> and a text \<^verbatim>\<open>createdAt\<close>, or a
  \<^verbatim>\<open>createdAt\<close> that is no date), or the recorded process is not alive, or the lock is
  older than \<open>stale\<close> milliseconds.
\<close>

definition reclaimable :: "int \<Rightarrow> LockFilePayload option \<Rightarrow> world \<Rightarrow> bool" where
  "reclaimable stale payload w =
     (case payload of
        None \<Rightarrow> True
      | Some p \<Rightarrow>
          (case Date_parse (createdAt p) of None \<Rightarrow> True | Some c \<Rightarrow> clock w - c > stale)
          \<or> \<not> isAlive (pid p) w)"

text \<open>Calling a list of \<^verbatim>\<open>release\<close> closures one after the other.\<close>

fun release_all :: "release_closure list \<Rightarrow> world \<Rightarrow> world" where
  "release_all [] w = w"
| "release_all (c # cs) w = release_all cs (snd (release c w))"

text \<open>
  A name of a directory listing that \<^verbatim>\<open>cleanupOrphanedLocks\<close> is to delete: it ends in
  \<^verbatim>\<open>.lock\<close>, the path without that suffix is no key of the registry, and the payload
  cannot be read or names a process that is not alive.
\<close>

definition orphaned :: "string \<Rightarrow> world \<Rightarrow> string \<Rightarrow> bool" where
  "orphaned directory w name \<longleftrightarrow>
     suffix ''.lock'' name
     \<and> HELD_LOCKS w (strip_lock_suffix (path_join directory name)) = None
     \<and> (case fst (readLockPayload (path_join directory name) w) of
          None \<Rightarrow> True
        | Some p \<Rightarrow> \<not> isAlive (pid p) w)"

definition removable :: "string \<Rightarrow> world \<Rightarrow> string \<Rightarrow> bool" where
  "removable directory w name \<longleftrightarrow> path_join directory name \<notin> set (protected w)"

text \<open>The world after the statements of \<^verbatim>\<open>acquireSessionWriteLock\<close> that precede the look-up
  in the registry.\<close>

definition prepared :: "params \<Rightarrow> world \<Rightarrow> world" where
  "prepared ps w =
     w\<lparr>cleanupRegistered := True,
       fs_log := fs_log w @ [Mkdir (session_dir ps w), Realpath (session_dir ps w)],
       dirs := List.insert (session_dir ps w) (dirs w)\<rparr>"

subsection \<open>Example worlds\<close>

text \<open>A process with pid 100 on a machine where the processes 100 and 200 run and process 1
  belongs to another user; the directory \<^verbatim>\<open>/s\<close> exists and is empty.\<close>

definition procs0 :: "int \<Rightarrow> kill_result" where
  "procs0 p = (if p = 100 \<or> p = 200 then Delivered
               else if p = 1 then Failed ''EPERM'' else Failed ''ESRCH'')"

definition world0 :: world where
  "world0 =
     \<lparr>HELD_LOCKS = Map.empty, files = [], dirs = [''/s''], links = Map.empty,
      open_handles = Map.empty, next_handle = 3, protected = [], kill0 = procs0,
      clock = 1000, process_pid = 100, cwd = ''/'', cleanupRegistered = False, fs_log = []\<rparr>"

definition session_a :: params where
  "session_a = \<lparr>sessionFile = ''/s/a.jsonl'', timeoutMs = None, staleMs = None\<rparr>"

definition lock_of :: "int \<Rightarrow> int \<Rightarrow> file_content" where
  "lock_of p t = Json (JObj [(''pid'', JNum p), (''createdAt'', JStr (ISO t))])"

text \<open>The lock file of \<^verbatim>\<open>/s/a.jsonl\<close> exists: written by a process that is gone, by a running
  process a moment ago, and by a running process with a \<^verbatim>\<open>createdAt\<close> that is no date.\<close>

definition dead_lock_world :: world where
  "dead_lock_world = world0\<lparr>files := [(''/s/a.jsonl.lock'', lock_of 300 900)]\<rparr>"

definition live_lock_world :: world where
  "live_lock_world = world0\<lparr>files := [(''/s/a.jsonl.lock'', lock_of 200 900)]\<rparr>"

definition undated_lock_world :: world where
  "undated_lock_world =
     world0\<lparr>files := [(''/s/a.jsonl.lock'',
        Json (JObj [(''pid'', JNum 200), (''createdAt'', JStr (NotADate ''yesterday''))]))]\<rparr>"

text \<open>The directory \<^verbatim>\<open>/s\<close> with the lock of a process that is gone, the lock of a running
  process, a lock file that is empty, a lock that this process holds, and other files.\<close>

definition sweep_world :: world where
  "sweep_world =
     world0\<lparr>files :=
         [(''/s/a.jsonl.lock'', lock_of 300 900),
          (''/s/b.jsonl.lock'', lock_of 200 900),
          (''/s/c.jsonl'', Unparsable),
          (''/s/d.jsonl.lock'', Unparsable),
          (''/s/e.jsonl.lock'', Unparsable),
          (''/s/sub/f.lock'', Unparsable)],
       HELD_LOCKS := [''/s/e.jsonl'' \<mapsto> \<lparr>count = 1, handle = 2, lockPath = ''/s/e.jsonl.lock''\<rparr>],
       open_handles := [2 \<mapsto> ''/s/e.jsonl.lock'']\<rparr>"

text \<open>The scenario of the spec: one lock with a dead pid and one with a live pid.\<close>

definition two_locks_world :: world where
  "two_locks_world =
     world0\<lparr>files :=
         [(''/s/a.jsonl.lock'', lock_of 300 900),
          (''/s/b.jsonl.lock'', lock_of 200 900)]\<rparr>"

definition short_wait :: params where
  "short_wait = \<lparr>sessionFile = ''/s/a.jsonl'', timeoutMs = Some 120, staleMs = None\<rparr>"

section \<open>Lemmas about the command queue\<close>

subsection \<open>The pump\<close>

lemma pump_loop_stop:
  "\<not> (active (state w) < maxConcurrent (state w) \<and> queue (state w) \<noteq> []) \<Longrightarrow> pump_loop e w = w"
  by (subst pump_loop.simps) auto

lemma pump_loop_go:
  "active (state w) < maxConcurrent (state w) \<Longrightarrow> queue (state w) \<noteq> [] \<Longrightarrow>
   pump_loop e w = pump_loop e (pump_body e w)"
  by (subst pump_loop.simps) simp

lemma pump_loop_rule:
  assumes "P w"
    and "\<And>v entry rest. P v \<Longrightarrow> active (state v) < maxConcurrent (state v) \<Longrightarrow>
           queue (state v) = entry # rest \<Longrightarrow> P (pump_body e v)"
  shows "P (pump_loop e w)"
  using assms
proof (induction e w rule: pump_loop.induct)
  case (1 e w)
  show ?case
  proof (cases "active (state w) < maxConcurrent (state w) \<and> queue (state w) \<noteq> []")
    case True
    then obtain entry rest where q: "queue (state w) = entry # rest"
      by (cases "queue (state w)") auto
    have "P (pump_body e w)"
      using "1.prems"(2) [OF "1.prems"(1) _ q] True by simp
    then have "P (pump_loop e (pump_body e w))"
      using "1.IH" True "1.prems"(2) by blast
    with True show ?thesis
      by (simp add: pump_loop_go)
  next
    case False
    with "1.prems" show ?thesis
      by (simp add: pump_loop_stop)
  qed
qed

lemma pump_body_fields:
  assumes "queue (state w) = entry # rest"
  shows "state (pump_body e w) = (state w)\<lparr>queue := rest, active := active (state w) + 1\<rparr>"
    and "task_calls (pump_body e w) = task_calls w @ [task entry]"
    and "launched (pump_body e w) = (launched w)(task entry \<mapsto>
          \<lparr>startTime = Date_now e,
           LANE_TASK_TIMEOUT_MS = lane_task_timeout (OPENCLAW_LANE_TASK_TIMEOUT_MS e),
           settled = False, timeoutId = Armed, result = None\<rparr>)"
    and "settle_calls (pump_body e w) = settle_calls w"
    and "next_task (pump_body e w) = next_task w"
  using assms by (simp_all add: pump_body_def launch_def Let_def)

lemma sorted_wrt_less_distinct: "sorted_wrt (<) (xs :: nat list) \<Longrightarrow> distinct xs"
  by (induction xs) auto

lemma order_inv_pump_body:
  assumes "queue (state w) = entry # rest" "order_inv w"
  shows "order_inv (pump_body e w)"
  using assms by (simp add: order_inv_def ids_def pump_body_fields)

lemma head_not_called:
  assumes "queue (state w) = entry # rest" "order_inv w"
  shows "task entry \<notin> set (task_calls w)"
proof -
  have "distinct (ids w)"
    using assms(2) by (simp add: order_inv_def sorted_wrt_less_distinct)
  then show ?thesis
    using assms(1) by (simp add: ids_def)
qed

lemma runs_inv_pump_body:
  assumes q: "queue (state w) = entry # rest" and o: "order_inv w" and r: "runs_inv w"
  shows "runs_inv (pump_body e w)"
proof -
  have h: "task entry \<notin> set (task_calls w)"
    by (rule head_not_called [OF q o])
  have "task_ok w (task entry)"
    using r by (simp add: runs_inv_def)
  with h have none: "launched w (task entry) = None" "calls_of w (task entry) = []"
    by (auto simp add: task_ok_def split: option.splits)
  have c: "calls_of (pump_body e w) = calls_of w"
    by (simp add: calls_of_def fun_eq_iff pump_body_fields [OF q])
  have "task_ok (pump_body e w) t" for t
  proof (cases "t = task entry")
    case True
    then show ?thesis
      by (simp add: task_ok_def c none pump_body_fields [OF q] run_ok_def)
  next
    case False
    moreover have "task_ok w t"
      using r by (simp add: runs_inv_def)
    ultimately show ?thesis
      by (simp add: task_ok_def c pump_body_fields [OF q] split: option.splits)
  qed
  then show ?thesis
    by (simp add: runs_inv_def)
qed

lemma active_inv_pump_body:
  assumes q: "queue (state w) = entry # rest" and o: "order_inv w" and a: "active_inv w"
  shows "active_inv (pump_body e w)"
proof -
  have h: "task entry \<notin> set (task_calls w)"
    by (rule head_not_called [OF q o])
  have "filter (unsettled (pump_body e w)) (task_calls w) = filter (unsettled w) (task_calls w)"
    using h by (intro filter_cong) (auto simp add: unsettled_def pump_body_fields [OF q])
  moreover have "unsettled (pump_body e w) (task entry)"
    by (simp add: unsettled_def pump_body_fields [OF q])
  ultimately have "running (pump_body e w) = running w @ [task entry]"
    by (simp add: running_def pump_body_fields [OF q])
  with a show ?thesis
    by (simp add: active_inv_def pump_body_fields [OF q])
qed

lemma lane_inv_pump_body:
  "queue (state w) = entry # rest \<Longrightarrow> lane_inv w \<Longrightarrow> lane_inv (pump_body e w)"
  by (simp add: lane_inv_def order_inv_pump_body runs_inv_pump_body active_inv_pump_body)

lemma lane_inv_pump_loop: "lane_inv w \<Longrightarrow> lane_inv (pump_loop e w)"
  by (rule pump_loop_rule) (simp_all add: lane_inv_pump_body)

lemma lane_inv_cong:
  assumes "task_calls w' = task_calls w" "queue (state w') = queue (state w)"
    "launched w' = launched w" "settle_calls w' = settle_calls w" "next_task w' = next_task w"
    "active (state w') = active (state w)"
  shows "lane_inv w' = lane_inv w"
proof -
  have "unsettled w' = unsettled w" "calls_of w' = calls_of w"
    using assms by (simp_all add: fun_eq_iff unsettled_def calls_of_def)
  moreover from this have "task_ok w' = task_ok w"
    using assms by (simp add: fun_eq_iff task_ok_def cong: option.case_cong)
  ultimately show ?thesis
    using assms
    by (simp add: lane_inv_def order_inv_def runs_inv_def active_inv_def ids_def running_def)
qed

lemma lane_inv_pump: "lane_inv w \<Longrightarrow> lane_inv (pump e w)"
  using lane_inv_pump_loop [of w e]
  by (simp add: pump_def Let_def lane_inv_cong [of "pump_loop e w\<lparr>state := state (pump_loop e w)\<lparr>draining := False\<rparr>\<rparr>" "pump_loop e w"])

lemma lane_inv_drainLane: "lane_inv w \<Longrightarrow> lane_inv (drainLane e w)"
  by (simp add: drainLane_def lane_inv_pump lane_inv_cong [of "w\<lparr>state := state w\<lparr>draining := True\<rparr>\<rparr>" w])

lemma pump_body_settle_calls_upd:
  "pump_body e (w\<lparr>settle_calls := cs\<rparr>) = (pump_body e w)\<lparr>settle_calls := cs\<rparr>"
  by (cases "queue (state w)") (simp_all add: pump_body_def launch_def Let_def)

lemma pump_loop_settle_calls_upd:
  "pump_loop e (w\<lparr>settle_calls := cs\<rparr>) = (pump_loop e w)\<lparr>settle_calls := cs\<rparr>"
proof (induction e w rule: pump_loop.induct)
  case (1 e w)
  show ?case
  proof (cases "active (state w) < maxConcurrent (state w) \<and> queue (state w) \<noteq> []")
    case True
    then have "pump_loop e (w\<lparr>settle_calls := cs\<rparr>) = pump_loop e (pump_body e (w\<lparr>settle_calls := cs\<rparr>))"
      by (simp add: pump_loop_go)
    also have "\<dots> = (pump_loop e (pump_body e w))\<lparr>settle_calls := cs\<rparr>"
      using "1.IH" True by (simp add: pump_body_settle_calls_upd)
    finally show ?thesis
      using True by (simp add: pump_loop_go)
  next
    case False
    then show ?thesis
      by (simp add: pump_loop_stop)
  qed
qed

lemma pump_settle_calls_upd:
  "pump e (w\<lparr>settle_calls := cs\<rparr>) = (pump e w)\<lparr>settle_calls := cs\<rparr>"
  by (simp add: pump_def Let_def pump_loop_settle_calls_upd)

lemma pump_loop_settle_calls [simp]: "settle_calls (pump_loop e w) = settle_calls w"
  by (rule pump_loop_rule) (simp_all add: pump_body_fields)

lemma pump_settle_calls [simp]: "settle_calls (pump e w) = settle_calls w"
  by (simp add: pump_def Let_def)

lemma timer_fired_idle:
  "launched w t = None \<or> (\<exists>r. launched w t = Some r \<and> timeoutId r \<noteq> Armed) \<Longrightarrow>
   timer_fired e t w = w"
  by (auto simp add: timer_fired_def)

lemma timer_fired_active:
  assumes "launched w t = Some r" "timeoutId r = Armed" "\<not> settled r"
  shows "timer_fired e t w = pump e (timeout_done e t r w)"
proof -
  define w2 where "w2 = w\<lparr>launched := (launched w)(t \<mapsto> r\<lparr>timeoutId := Fired, settled := True\<rparr>),
       state := (state w)\<lparr>active := active (state w) - 1\<rparr>,
       diag := diag w @
         [(Warn, timeout_warning (lane (state w)) (Date_now e - startTime r)
                   (LANE_TASK_TIMEOUT_MS r) (active (state w) - 1) (length (queue (state w))))]\<rparr>"
  have "timer_fired e t w = (pump e w2)\<lparr>settle_calls := settle_calls w @
          [(t, Rejected (timeout_error (LANE_TASK_TIMEOUT_MS r)))]\<rparr>"
    using assms by (simp add: timer_fired_def Let_def w2_def)
  also have "\<dots> = pump e (w2\<lparr>settle_calls := settle_calls w @
          [(t, Rejected (timeout_error (LANE_TASK_TIMEOUT_MS r)))]\<rparr>)"
    by (simp add: pump_settle_calls_upd)
  also have "w2\<lparr>settle_calls := settle_calls w @
          [(t, Rejected (timeout_error (LANE_TASK_TIMEOUT_MS r)))]\<rparr> = timeout_done e t r w"
    by (simp add: w2_def timeout_done_def)
  finally show ?thesis .
qed

lemma task_settled_idle:
  "launched w t = None \<or> (\<exists>r. launched w t = Some r \<and> result r \<noteq> None) \<Longrightarrow>
   task_settled e t out w = w"
  by (auto simp add: task_settled_def)

lemma task_settled_late:
  "launched w t = Some r \<Longrightarrow> result r = None \<Longrightarrow> settled r \<Longrightarrow>
   task_settled e t out w = w\<lparr>launched := (launched w)(t \<mapsto> r\<lparr>result := Some out\<rparr>)\<rparr>"
  by (simp add: task_settled_def)

lemma task_settled_active:
  assumes "launched w t = Some r" "result r = None" "\<not> settled r"
  shows "task_settled e t out w = pump e (completion_done e t r out w)"
proof -
  define w2 where "w2 = w\<lparr>launched := (launched w)(t \<mapsto>
         r\<lparr>result := Some out, settled := True, timeoutId := clearTimeout (timeoutId r)\<rparr>),
       state := (state w)\<lparr>active := active (state w) - 1\<rparr>,
       diag := diag w @ completion_log e r out w\<rparr>"
  have "task_settled e t out w = (pump e w2)\<lparr>settle_calls := settle_calls w @ [(t, out)]\<rparr>"
    using assms
    by (cases out) (simp_all add: task_settled_def Let_def w2_def completion_log_def)
  also have "\<dots> = pump e (w2\<lparr>settle_calls := settle_calls w @ [(t, out)]\<rparr>)"
    by (simp add: pump_settle_calls_upd)
  also have "w2\<lparr>settle_calls := settle_calls w @ [(t, out)]\<rparr> = completion_done e t r out w"
    by (simp add: w2_def completion_done_def)
  finally show ?thesis .
qed

lemma filter_remove_one:
  "distinct xs \<Longrightarrow> t \<in> set xs \<Longrightarrow> P t \<Longrightarrow>
   length (filter P xs) = Suc (length (filter (\<lambda>x. x \<noteq> t \<and> P x) xs))"
proof (induction xs)
  case Nil
  then show ?case by simp
next
  case (Cons x xs)
  show ?case
  proof (cases "x = t")
    case True
    with Cons.prems have "filter (\<lambda>x. x \<noteq> t \<and> P x) xs = filter P xs"
      by (intro filter_cong) auto
    with True Cons.prems show ?thesis by simp
  next
    case False
    with Cons show ?thesis by simp
  qed
qed

lemma lane_inv_called:
  assumes "lane_inv w" "launched w t = Some r"
  shows "t \<in> set (task_calls w)" "run_ok r (calls_of w t)" "distinct (task_calls w)"
proof -
  have "task_ok w t"
    using assms(1) by (simp add: lane_inv_def runs_inv_def)
  with assms(2) show "t \<in> set (task_calls w)" "run_ok r (calls_of w t)"
    by (simp_all add: task_ok_def)
  have "distinct (ids w)"
    using assms(1) by (simp add: lane_inv_def order_inv_def sorted_wrt_less_distinct)
  then show "distinct (task_calls w)"
    by (simp add: ids_def)
qed

lemma calls_of_append:
  "settle_calls w' = settle_calls w @ [(t, c)] \<Longrightarrow>
   calls_of w' u = (if u = t then calls_of w u @ [c] else calls_of w u)"
  by (simp add: calls_of_def)

text \<open>A run that leaves the set of running entries: its record becomes settled and one call is
  made on the caller's promise.\<close>

lemma lane_inv_finish:
  assumes inv: "lane_inv w"
    and r: "launched w t = Some r" "\<not> settled r"
    and w': "launched w' = (launched w)(t \<mapsto> r')" "settled r'"
      "settle_calls w' = settle_calls w @ [(t, c)]" "run_ok r' [c]"
      "task_calls w' = task_calls w" "queue (state w') = queue (state w)"
      "next_task w' = next_task w" "active (state w') = active (state w) - 1"
  shows "lane_inv w'"
proof -
  note called = lane_inv_called [OF inv r(1)]
  from called(2) r(2) have armed: "calls_of w t = []"
    by (auto simp add: run_ok_def split: timer.splits)
  have order: "order_inv w'"
    using inv w' by (simp add: lane_inv_def order_inv_def ids_def)
  have "task_ok w' u" for u
  proof (cases "u = t")
    case True
    then show ?thesis
      using w' called(1) armed by (simp add: task_ok_def calls_of_append [OF w'(3)])
  next
    case False
    moreover have "task_ok w u"
      using inv by (simp add: lane_inv_def runs_inv_def)
    ultimately show ?thesis
      using w' by (simp add: task_ok_def calls_of_append [OF w'(3)] split: option.splits)
  qed
  then have runs: "runs_inv w'"
    by (simp add: runs_inv_def)
  have "unsettled w' = (\<lambda>x. x \<noteq> t \<and> unsettled w x)"
    using w'(1,2) by (auto simp add: fun_eq_iff unsettled_def)
  moreover have "unsettled w t"
    using r by (simp add: unsettled_def)
  ultimately have "length (running w) = Suc (length (running w'))"
    using filter_remove_one [OF called(3) called(1), of "unsettled w"] w'(5)
    by (simp add: running_def)
  moreover have "active (state w) = int (length (running w))"
    using inv by (simp add: lane_inv_def active_inv_def)
  ultimately have "active_inv w'"
    using w'(8) by (simp add: active_inv_def)
  with order runs show ?thesis
    by (simp add: lane_inv_def)
qed

lemma lane_inv_timeout_done:
  assumes "lane_inv w" "launched w t = Some r" "\<not> settled r"
  shows "lane_inv (timeout_done e t r w)"
  by (rule lane_inv_finish [OF assms, where r' = "r\<lparr>timeoutId := Fired, settled := True\<rparr>"
        and c = "Rejected (timeout_error (LANE_TASK_TIMEOUT_MS r))"])
    (simp_all add: timeout_done_def run_ok_def)

lemma lane_inv_completion_done:
  assumes "lane_inv w" "launched w t = Some r" "\<not> settled r"
  shows "lane_inv (completion_done e t r out w)"
proof -
  have "run_ok r (calls_of w t)"
    by (rule lane_inv_called(2) [OF assms(1,2)])
  with assms(3) have "timeoutId r = Armed"
    by (auto simp add: run_ok_def split: timer.splits)
  then show ?thesis
    by (intro lane_inv_finish [OF assms, where c = out
          and r' = "r\<lparr>result := Some out, settled := True, timeoutId := clearTimeout (timeoutId r)\<rparr>"])
      (simp_all add: completion_done_def run_ok_def clearTimeout_def)
qed

lemma lane_inv_late:
  assumes inv: "lane_inv w" and r: "launched w t = Some r" "result r = None" "settled r"
  shows "lane_inv (w\<lparr>launched := (launched w)(t \<mapsto> r\<lparr>result := Some out\<rparr>)\<rparr>)"
    (is "lane_inv ?w'")
proof -
  note called = lane_inv_called [OF inv r(1)]
  from called(2) r(2,3) have ok: "run_ok (r\<lparr>result := Some out\<rparr>) (calls_of w t)"
    by (auto simp add: run_ok_def split: timer.splits)
  have c: "calls_of ?w' = calls_of w"
    by (simp add: fun_eq_iff calls_of_def)
  have "task_ok ?w' u" for u
  proof -
    have "task_ok w u"
      using inv by (simp add: lane_inv_def runs_inv_def)
    then show ?thesis
      using ok called(1) by (simp add: task_ok_def c split: option.splits)
  qed
  moreover have "unsettled ?w' = unsettled w"
    using r by (auto simp add: fun_eq_iff unsettled_def)
  ultimately show ?thesis
    using inv
    by (simp add: lane_inv_def order_inv_def runs_inv_def active_inv_def ids_def running_def)
qed

lemma lane_inv_timer_fired: "lane_inv w \<Longrightarrow> lane_inv (timer_fired e t w)"
proof -
  assume inv: "lane_inv w"
  show ?thesis
  proof (cases "launched w t")
    case None
    with inv show ?thesis by (simp add: timer_fired_idle)
  next
    case (Some r)
    show ?thesis
    proof (cases "timeoutId r = Armed")
      case True
      with lane_inv_called(2) [OF inv Some] have "\<not> settled r"
        by (simp add: run_ok_def)
      with inv Some True show ?thesis
        by (simp add: timer_fired_active lane_inv_pump lane_inv_timeout_done)
    next
      case False
      with inv Some show ?thesis by (simp add: timer_fired_idle)
    qed
  qed
qed

lemma lane_inv_task_settled: "lane_inv w \<Longrightarrow> lane_inv (task_settled e t out w)"
proof -
  assume inv: "lane_inv w"
  show ?thesis
  proof (cases "launched w t")
    case None
    with inv show ?thesis by (simp add: task_settled_idle)
  next
    case (Some r)
    show ?thesis
    proof (cases "result r = None")
      case True
      then show ?thesis
        using inv Some
        by (cases "settled r")
          (simp_all add: task_settled_late task_settled_active lane_inv_late lane_inv_pump
            lane_inv_completion_done)
    next
      case False
      with inv Some show ?thesis by (simp add: task_settled_idle)
    qed
  qed
qed

lemma lane_inv_created: "lane_inv (created nm)"
  by (simp add: lane_inv_def order_inv_def runs_inv_def task_ok_def active_inv_def ids_def
      running_def calls_of_def created_def)

lemma lane_inv_enqueue:
  assumes "lane_inv w" "task entry = next_task w"
  shows "lane_inv (w\<lparr>state := (state w)\<lparr>queue := queue (state w) @ [entry]\<rparr>,
                     next_task := next_task w + 1\<rparr>)" (is "lane_inv ?w'")
proof -
  have "unsettled ?w' = unsettled w" "calls_of ?w' = calls_of w"
    by (simp_all add: fun_eq_iff unsettled_def calls_of_def)
  moreover from this have "task_ok ?w' = task_ok w"
    by (simp add: fun_eq_iff task_ok_def cong: option.case_cong)
  ultimately show ?thesis
    using assms
    by (auto simp add: lane_inv_def order_inv_def runs_inv_def active_inv_def ids_def
        running_def sorted_wrt_append less_SucI)
qed

lemma lane_inv_clear:
  assumes "lane_inv w"
  shows "lane_inv (w\<lparr>state := (state w)\<lparr>queue := []\<rparr>\<rparr>)" (is "lane_inv ?w'")
proof -
  have "unsettled ?w' = unsettled w" "calls_of ?w' = calls_of w"
    by (simp_all add: fun_eq_iff unsettled_def calls_of_def)
  moreover from this have "task_ok ?w' = task_ok w"
    by (simp add: fun_eq_iff task_ok_def cong: option.case_cong)
  ultimately show ?thesis
    using assms
    by (auto simp add: lane_inv_def order_inv_def runs_inv_def active_inv_def ids_def
        running_def sorted_wrt_append)
qed

subsection \<open>Frame properties\<close>

lemma pump_loop_frame [simp]:
  "ids (pump_loop e w) = ids w" "next_task (pump_loop e w) = next_task w"
  "maxConcurrent (state (pump_loop e w)) = maxConcurrent (state w)"
proof -
  have "ids (pump_loop e w) = ids w \<and> next_task (pump_loop e w) = next_task w
        \<and> maxConcurrent (state (pump_loop e w)) = maxConcurrent (state w)"
    by (rule pump_loop_rule) (simp_all add: ids_def pump_body_fields)
  then show "ids (pump_loop e w) = ids w" "next_task (pump_loop e w) = next_task w"
    "maxConcurrent (state (pump_loop e w)) = maxConcurrent (state w)"
    by simp_all
qed

lemma pump_frame [simp]:
  "ids (pump e w) = ids w" "next_task (pump e w) = next_task w"
  "maxConcurrent (state (pump e w)) = maxConcurrent (state w)"
proof -
  have "ids (pump e w) = ids (pump_loop e w)"
    by (simp add: pump_def Let_def ids_def)
  then show "ids (pump e w) = ids w" by simp
qed (simp_all add: pump_def Let_def)

lemma drainLane_frame [simp]:
  "ids (drainLane e w) = ids w" "next_task (drainLane e w) = next_task w"
  "maxConcurrent (state (drainLane e w)) = maxConcurrent (state w)"
  "settle_calls (drainLane e w) = settle_calls w"
  by (simp_all add: drainLane_def ids_def [of "w\<lparr>state := state w\<lparr>draining := True\<rparr>\<rparr>"]
      ids_def [of w])

lemma timer_fired_frame [simp]:
  "ids (timer_fired e t w) = ids w" "next_task (timer_fired e t w) = next_task w"
  "maxConcurrent (state (timer_fired e t w)) = maxConcurrent (state w)"
proof -
  have "ids (timer_fired e t w) = ids w \<and> next_task (timer_fired e t w) = next_task w
        \<and> maxConcurrent (state (timer_fired e t w)) = maxConcurrent (state w)"
  proof (cases "\<exists>r. launched w t = Some r \<and> timeoutId r = Armed")
    case True
    then obtain r where r: "launched w t = Some r" "timeoutId r = Armed" by blast
    show ?thesis
    proof (cases "settled r")
      case True
      with r show ?thesis by (simp add: timer_fired_def ids_def)
    next
      case False
      have "ids (timeout_done e t r w) = ids w"
        by (simp add: ids_def timeout_done_def)
      with r False show ?thesis
        by (simp add: timer_fired_active) (simp add: timeout_done_def)
    qed
  next
    case False
    then have "timer_fired e t w = w"
      by (intro timer_fired_idle) (cases "launched w t", auto)
    then show ?thesis by simp
  qed
  then show "ids (timer_fired e t w) = ids w" "next_task (timer_fired e t w) = next_task w"
    "maxConcurrent (state (timer_fired e t w)) = maxConcurrent (state w)"
    by simp_all
qed

lemma task_settled_frame [simp]:
  "ids (task_settled e t out w) = ids w" "next_task (task_settled e t out w) = next_task w"
  "maxConcurrent (state (task_settled e t out w)) = maxConcurrent (state w)"
proof -
  have "ids (task_settled e t out w) = ids w \<and> next_task (task_settled e t out w) = next_task w
        \<and> maxConcurrent (state (task_settled e t out w)) = maxConcurrent (state w)"
  proof (cases "\<exists>r. launched w t = Some r \<and> result r = None")
    case True
    then obtain r where r: "launched w t = Some r" "result r = None" by blast
    show ?thesis
    proof (cases "settled r")
      case True
      with r show ?thesis by (simp add: task_settled_late ids_def)
    next
      case False
      have "ids (completion_done e t r out w) = ids w"
        by (simp add: ids_def completion_done_def)
      with r False show ?thesis
        by (simp add: task_settled_active) (simp add: completion_done_def)
    qed
  next
    case False
    then have "task_settled e t out w = w"
      by (intro task_settled_idle) (cases "launched w t", auto)
    then show ?thesis by simp
  qed
  then show "ids (task_settled e t out w) = ids w"
    "next_task (task_settled e t out w) = next_task w"
    "maxConcurrent (state (task_settled e t out w)) = maxConcurrent (state w)"
    by simp_all
qed

subsection \<open>The cap\<close>

lemma cap_ok_pump: "cap_ok w \<Longrightarrow> cap_ok (pump e w)"
proof -
  assume "cap_ok w"
  then have "cap_ok (pump_loop e w)"
    by (rule pump_loop_rule) (simp add: cap_ok_def pump_body_fields)
  then show ?thesis
    by (simp add: cap_ok_def pump_def Let_def)
qed

lemma cap_ok_drainLane: "cap_ok w \<Longrightarrow> cap_ok (drainLane e w)"
  using cap_ok_pump [of "w\<lparr>state := state w\<lparr>draining := True\<rparr>\<rparr>" e]
  by (simp add: drainLane_def cap_ok_def)

lemma cap_ok_timer_fired: "cap_ok w \<Longrightarrow> cap_ok (timer_fired e t w)"
proof -
  assume c: "cap_ok w"
  show ?thesis
  proof (cases "\<exists>r. launched w t = Some r \<and> timeoutId r = Armed")
    case True
    then obtain r where r: "launched w t = Some r" "timeoutId r = Armed" by blast
    show ?thesis
    proof (cases "settled r")
      case True
      with r c show ?thesis by (simp add: timer_fired_def cap_ok_def)
    next
      case False
      have "cap_ok (timeout_done e t r w)"
        using c by (simp add: cap_ok_def timeout_done_def)
      with r False show ?thesis
        by (simp add: timer_fired_active cap_ok_pump)
    qed
  next
    case False
    then have "timer_fired e t w = w"
      by (intro timer_fired_idle) (cases "launched w t", auto)
    with c show ?thesis by simp
  qed
qed

lemma cap_ok_task_settled: "cap_ok w \<Longrightarrow> cap_ok (task_settled e t out w)"
proof -
  assume c: "cap_ok w"
  show ?thesis
  proof (cases "\<exists>r. launched w t = Some r \<and> result r = None")
    case True
    then obtain r where r: "launched w t = Some r" "result r = None" by blast
    show ?thesis
    proof (cases "settled r")
      case True
      with r c show ?thesis by (simp add: task_settled_late cap_ok_def)
    next
      case False
      have "cap_ok (completion_done e t r out w)"
        using c by (simp add: cap_ok_def completion_done_def)
      with r False show ?thesis
        by (simp add: task_settled_active cap_ok_pump)
    qed
  next
    case False
    then have "task_settled e t out w = w"
      by (intro task_settled_idle) (cases "launched w t", auto)
    with c show ?thesis by simp
  qed
qed

subsection \<open>From lanes to the registry\<close>

lemma lanes_all_empty [simp]: "lanes_all P Map.empty"
  by (simp add: lanes_all_def)

lemma lanes_all_upd: "lanes_all P L \<Longrightarrow> P w \<Longrightarrow> lanes_all P (L(nm \<mapsto> w))"
  by (simp add: lanes_all_def)

lemma lanes_allD: "lanes_all P L \<Longrightarrow> L nm = Some w \<Longrightarrow> P w"
  by (simp add: lanes_all_def)

lemma lanes_all_lane_of: "lanes_all P L \<Longrightarrow> P (created nm) \<Longrightarrow> P (lane_of L nm)"
  by (auto simp add: lanes_all_def lane_of_def split: option.splits)

lemma step_Enqueue:
  "step e (Enqueue nm wa ow) L =
     L(cleaned_lane nm \<mapsto> drainLane e
        ((lane_of L (cleaned_lane nm))
          \<lparr>state := (state (lane_of L (cleaned_lane nm)))
             \<lparr>queue := queue (state (lane_of L (cleaned_lane nm))) @
                [\<lparr>task = next_task (lane_of L (cleaned_lane nm)), enqueuedAt = Date_now e,
                  warnAfterMs = (case wa of None \<Rightarrow> 2000 | Some v \<Rightarrow> v), onWait = ow\<rparr>]\<rparr>,
            next_task := next_task (lane_of L (cleaned_lane nm)) + 1\<rparr>))"
  by (simp add: enqueueCommandInLane_def getLaneState_def lane_of_def Let_def
      split: option.splits)

lemma step_SetConcurrency:
  "step e (SetConcurrency nm n) L =
     L(cleaned_lane nm \<mapsto> drainLane e
        ((lane_of L (cleaned_lane nm))
          \<lparr>state := (state (lane_of L (cleaned_lane nm)))\<lparr>maxConcurrent := max 1 \<lfloor>n\<rfloor>\<rparr>\<rparr>))"
  by (simp add: setCommandLaneConcurrency_def getLaneState_def lane_of_def Let_def
      split: option.splits)

lemma step_ClearLane:
  "step e (ClearLane nm) L =
     (case L (cleaned_lane nm) of
        None \<Rightarrow> L
      | Some w \<Rightarrow> L(cleaned_lane nm \<mapsto> w\<lparr>state := (state w)\<lparr>queue := []\<rparr>\<rparr>))"
  by (simp add: clearCommandLane_def Let_def split: option.splits)

lemmas step_eqs = step_Enqueue step_SetConcurrency step_ClearLane step.simps(4,5)

lemma step_lane_inv: "lanes_all lane_inv L \<Longrightarrow> lanes_all lane_inv (step e ev L)"
proof (cases ev)
  case (Enqueue nm wa ow)
  assume "lanes_all lane_inv L"
  then have "lane_inv (lane_of L (cleaned_lane nm))"
    by (rule lanes_all_lane_of) (rule lane_inv_created)
  then have "lane_inv ((lane_of L (cleaned_lane nm))
          \<lparr>state := (state (lane_of L (cleaned_lane nm)))
             \<lparr>queue := queue (state (lane_of L (cleaned_lane nm))) @
                [\<lparr>task = next_task (lane_of L (cleaned_lane nm)), enqueuedAt = Date_now e,
                  warnAfterMs = (case wa of None \<Rightarrow> 2000 | Some v \<Rightarrow> v), onWait = ow\<rparr>]\<rparr>,
            next_task := next_task (lane_of L (cleaned_lane nm)) + 1\<rparr>)"
    by (rule lane_inv_enqueue) simp
  then show ?thesis
    using \<open>lanes_all lane_inv L\<close> unfolding Enqueue step_Enqueue
    by (intro lanes_all_upd lane_inv_drainLane)
next
  case (SetConcurrency nm n)
  assume "lanes_all lane_inv L"
  then have "lane_inv (lane_of L (cleaned_lane nm))"
    by (rule lanes_all_lane_of) (rule lane_inv_created)
  then have "lane_inv ((lane_of L (cleaned_lane nm))
          \<lparr>state := (state (lane_of L (cleaned_lane nm)))\<lparr>maxConcurrent := max 1 \<lfloor>n\<rfloor>\<rparr>\<rparr>)"
    by (subst lane_inv_cong [where w = "lane_of L (cleaned_lane nm)"]) simp_all
  then show ?thesis
    using \<open>lanes_all lane_inv L\<close> unfolding SetConcurrency step_SetConcurrency
    by (intro lanes_all_upd lane_inv_drainLane)
next
  case (ClearLane nm)
  assume "lanes_all lane_inv L"
  then show ?thesis
    unfolding ClearLane step_ClearLane
    by (auto split: option.splits intro!: lanes_all_upd lane_inv_clear dest: lanes_allD)
next
  case (TaskSettled nm t out)
  assume "lanes_all lane_inv L"
  then show ?thesis
    unfolding TaskSettled
    by (auto split: option.splits intro!: lanes_all_upd lane_inv_task_settled dest: lanes_allD)
next
  case (TimerFired nm t)
  assume "lanes_all lane_inv L"
  then show ?thesis
    unfolding TimerFired
    by (auto split: option.splits intro!: lanes_all_upd lane_inv_timer_fired dest: lanes_allD)
qed

lemma run_lane_inv: "lanes_all lane_inv L \<Longrightarrow> lanes_all lane_inv (run evs L)"
  by (induction evs arbitrary: L) (auto simp add: step_lane_inv)

lemma reachable_lane_inv: "run evs Map.empty nm = Some w \<Longrightarrow> lane_inv w"
  using run_lane_inv [of Map.empty evs] by (auto dest: lanes_allD)

lemma step_cap_ok:
  assumes all: "lanes_all cap_ok L" and low: "\<not> lowers_cap ev L"
  shows "lanes_all cap_ok (step e ev L)"
proof (cases ev)
  case (Enqueue nm wa ow)
  have "cap_ok (lane_of L (cleaned_lane nm))"
    using all by (rule lanes_all_lane_of) (simp add: cap_ok_def created_def)
  then show ?thesis
    using all unfolding Enqueue step_Enqueue
    by (intro lanes_all_upd cap_ok_drainLane) (simp_all add: cap_ok_def)
next
  case (SetConcurrency nm n)
  have "active (state (lane_of L (cleaned_lane nm))) \<le> max 1 \<lfloor>n\<rfloor>"
    using low unfolding SetConcurrency
    by (auto simp add: lane_of_def created_def split: option.splits)
  then show ?thesis
    using all unfolding SetConcurrency step_SetConcurrency
    by (intro lanes_all_upd cap_ok_drainLane) (simp_all add: cap_ok_def)
next
  case (ClearLane nm)
  show ?thesis
    using all unfolding ClearLane step_ClearLane
    by (auto split: option.splits simp add: cap_ok_def intro!: lanes_all_upd dest: lanes_allD)
next
  case (TaskSettled nm t out)
  show ?thesis
    using all unfolding TaskSettled
    by (auto split: option.splits intro!: lanes_all_upd cap_ok_task_settled dest: lanes_allD)
next
  case (TimerFired nm t)
  show ?thesis
    using all unfolding TimerFired
    by (auto split: option.splits intro!: lanes_all_upd cap_ok_timer_fired dest: lanes_allD)
qed

lemma run_cap_ok:
  "lanes_all cap_ok L \<Longrightarrow> never_lowers evs L \<Longrightarrow> lanes_all cap_ok (run (take k evs) L)"
proof (induction evs arbitrary: L k)
  case Nil
  then show ?case by simp
next
  case (Cons x evs)
  obtain e ev where x: "x = (e, ev)" by (cases x)
  show ?case
  proof (cases k)
    case 0
    with Cons.prems show ?thesis by simp
  next
    case (Suc j)
    with Cons x show ?thesis
      by (simp add: step_cap_ok)
  qed
qed

subsection \<open>Numbering and order of the entries\<close>

lemma lane_of_upd: "lane_of (L(nm \<mapsto> w)) x = (if x = nm then w else lane_of L x)"
  by (simp add: lane_of_def)

lemma lane_of_Some: "L nm = Some w \<Longrightarrow> lane_of L nm = w"
  by (simp add: lane_of_def)

lemma next_task_step:
  "next_task (lane_of (step e ev L) nm) =
   next_task (lane_of L nm) + (if enqueues_on nm ev then 1 else 0)"
  by (cases ev)
    (auto simp del: step.simps(1,2,3) simp add: step_eqs lane_of_upd lane_of_Some
      split: option.splits)

lemma next_task_run:
  "next_task (lane_of (run evs L) nm) =
   next_task (lane_of L nm) + length (filter (enqueues_on nm \<circ> snd) evs)"
  by (induction evs arbitrary: L) (auto simp add: next_task_step)

lemma dense_created: "dense (created nm)"
  by (simp add: dense_def ids_def created_def)

lemma step_dense:
  assumes "lanes_all dense L" "\<not> is_clear ev"
  shows "lanes_all dense (step e ev L)"
proof (cases ev)
  case (Enqueue nm wa ow)
  have "dense (lane_of L (cleaned_lane nm))"
    using assms(1) by (rule lanes_all_lane_of) (rule dense_created)
  then show ?thesis
    using assms(1) unfolding Enqueue step_Enqueue
    by (intro lanes_all_upd) (simp_all add: dense_def, simp add: ids_def)
next
  case (SetConcurrency nm n)
  have "dense (lane_of L (cleaned_lane nm))"
    using assms(1) by (rule lanes_all_lane_of) (rule dense_created)
  then show ?thesis
    using assms(1) unfolding SetConcurrency step_SetConcurrency
    by (intro lanes_all_upd) (simp_all add: dense_def, simp add: ids_def)
next
  case (ClearLane nm)
  with assms(2) show ?thesis by simp
next
  case (TaskSettled nm t out)
  show ?thesis
    using assms(1) unfolding TaskSettled
    by (auto split: option.splits simp add: dense_def intro!: lanes_all_upd dest: lanes_allD)
next
  case (TimerFired nm t)
  show ?thesis
    using assms(1) unfolding TimerFired
    by (auto split: option.splits simp add: dense_def intro!: lanes_all_upd dest: lanes_allD)
qed

lemma run_dense:
  "lanes_all dense L \<Longrightarrow> \<not> list_ex (is_clear \<circ> snd) evs \<Longrightarrow> lanes_all dense (run evs L)"
  by (induction evs arbitrary: L) (auto simp add: step_dense)

lemma cap_one_pump: "cap_one w \<Longrightarrow> cap_one (pump e w)"
  using cap_ok_pump [of w e] by (simp add: cap_one_def cap_ok_def)

lemma cap_one_cap_ok: "cap_one w \<longleftrightarrow> maxConcurrent (state w) = 1 \<and> cap_ok w"
  by (auto simp add: cap_one_def cap_ok_def)

lemma step_cap_one:
  assumes all: "lanes_all cap_one L" and keep: "keeps_cap_one ev"
  shows "lanes_all cap_one (step e ev L)"
proof -
  have ok: "lanes_all cap_ok L"
    using all by (auto simp add: lanes_all_def cap_one_cap_ok)
  have "\<not> lowers_cap ev L"
  proof (cases ev)
    case (SetConcurrency x n)
    show ?thesis
    proof (cases "L (cleaned_lane x)")
      case None
      with SetConcurrency show ?thesis by simp
    next
      case (Some w)
      with all have "active (state w) \<le> 1"
        by (auto dest: lanes_allD simp add: cap_one_def)
      with Some SetConcurrency show ?thesis by simp
    qed
  qed simp_all
  then have ok': "lanes_all cap_ok (step e ev L)"
    using ok by (intro step_cap_ok)
  have "maxConcurrent (state w') = 1" if "step e ev L nm = Some w'" for nm w'
  proof (cases ev)
    case (Enqueue x wa ow)
    have "maxConcurrent (state (lane_of L (cleaned_lane x))) = 1"
      using all by (auto simp add: lane_of_def lanes_all_def cap_one_def created_def
          split: option.splits)
    with that all show ?thesis
      unfolding Enqueue step_Enqueue
      by (auto simp add: lanes_all_def cap_one_def split: if_splits)
  next
    case (SetConcurrency x n)
    with that all keep show ?thesis
      unfolding SetConcurrency step_SetConcurrency
      by (auto simp add: lanes_all_def cap_one_def split: if_splits)
  next
    case (ClearLane x)
    with that all show ?thesis
      unfolding ClearLane step_ClearLane
      by (auto simp add: lanes_all_def cap_one_def split: if_splits option.splits)
  next
    case (TaskSettled x t out)
    with that all show ?thesis
      by (auto simp add: lanes_all_def cap_one_def split: if_splits option.splits)
  next
    case (TimerFired x t)
    with that all show ?thesis
      by (auto simp add: lanes_all_def cap_one_def split: if_splits option.splits)
  qed
  with ok' show ?thesis
    by (auto simp add: lanes_all_def cap_one_cap_ok)
qed

lemma run_cap_one:
  "lanes_all cap_one L \<Longrightarrow> list_all (keeps_cap_one \<circ> snd) evs \<Longrightarrow> lanes_all cap_one (run evs L)"
  by (induction evs arbitrary: L) (auto simp add: step_cap_one)

subsection \<open>Entries removed from the queue\<close>

lemma step_dropped:
  assumes "L nm = Some w" "dropped t w"
  shows "\<exists>w'. step e ev L nm = Some w' \<and> dropped t w'"
proof (cases ev)
  case (Enqueue x wa ow)
  show ?thesis
  proof (cases "cleaned_lane x = nm")
    case True
    with assms show ?thesis
      unfolding Enqueue step_Enqueue
      by (simp add: lane_of_Some dropped_def) (simp add: ids_def)
  next
    case False
    with assms show ?thesis
      unfolding Enqueue step_Enqueue by simp
  qed
next
  case (SetConcurrency x n)
  show ?thesis
  proof (cases "cleaned_lane x = nm")
    case True
    with assms show ?thesis
      unfolding SetConcurrency step_SetConcurrency
      by (simp add: lane_of_Some dropped_def) (simp add: ids_def)
  next
    case False
    with assms show ?thesis
      unfolding SetConcurrency step_SetConcurrency by simp
  qed
next
  case (ClearLane x)
  with assms show ?thesis
    unfolding ClearLane step_ClearLane
    by (auto simp add: dropped_def ids_def split: option.splits)
next
  case (TaskSettled x t' out)
  with assms show ?thesis
    by (auto simp add: dropped_def split: option.splits)
next
  case (TimerFired x t')
  with assms show ?thesis
    by (auto simp add: dropped_def split: option.splits)
qed

lemma run_dropped:
  "L nm = Some w \<Longrightarrow> dropped t w \<Longrightarrow> \<exists>w'. run evs L nm = Some w' \<and> dropped t w'"
proof (induction evs arbitrary: L w)
  case Nil
  then show ?case by simp
next
  case (Cons x evs)
  obtain e ev where x: "x = (e, ev)" by (cases x)
  have "\<exists>w'. step e ev L nm = Some w' \<and> dropped t w'"
    using Cons.prems by (rule step_dropped)
  then obtain w1 where w1: "step e ev L nm = Some w1" "dropped t w1" by blast
  have "\<exists>w'. run evs (step e ev L) nm = Some w' \<and> dropped t w'"
    using w1 by (rule Cons.IH)
  then show ?case
    by (simp add: x)
qed

lemma dropped_not_launched:
  assumes "lane_inv w" "dropped t w"
  shows "calls_of w t = []" "t \<notin> set (task_calls w)" "launched w t = None"
proof -
  show t: "t \<notin> set (task_calls w)"
    using assms(2) by (simp add: dropped_def ids_def)
  have "task_ok w t"
    using assms(1) by (simp add: lane_inv_def runs_inv_def)
  with t show "launched w t = None" "calls_of w t = []"
    by (auto simp add: task_ok_def split: option.splits)
qed

subsection \<open>What a pump pass starts\<close>

lemma pump_loop_task_calls:
  "prefix (task_calls w) (task_calls (pump_loop e w))
   \<and> active (state (pump_loop e w)) - int (length (task_calls (pump_loop e w)))
       = active (state w) - int (length (task_calls w))"
  by (rule pump_loop_rule) (auto simp add: pump_body_fields elim: prefix_order.trans [rotated])

lemma pump_task_calls:
  "prefix (task_calls w) (task_calls (pump e w))"
  "active (state (pump e w)) - int (length (task_calls (pump e w)))
     = active (state w) - int (length (task_calls w))"
  using pump_loop_task_calls [of w e] by (simp_all add: pump_def Let_def)

lemma pump_starts_head:
  assumes "queue (state w) = entry # rest" "active (state w) < maxConcurrent (state w)"
  shows "prefix (task_calls w @ [task entry]) (task_calls (pump e w))"
proof -
  have "pump_loop e w = pump_loop e (pump_body e w)"
    using assms by (simp add: pump_loop_go)
  moreover have "prefix (task_calls (pump_body e w)) (task_calls (pump_loop e (pump_body e w)))"
    using pump_loop_task_calls [of "pump_body e w" e] by simp
  ultimately show ?thesis
    using assms(1) by (simp add: pump_def Let_def pump_body_fields)
qed

lemma pump_loop_keeps_called:
  assumes "order_inv w" "t \<in> set (task_calls w)"
  shows "launched (pump_loop e w) t = launched w t"
proof -
  have "order_inv (pump_loop e w) \<and> t \<in> set (task_calls (pump_loop e w))
        \<and> launched (pump_loop e w) t = launched w t"
  proof (rule pump_loop_rule)
    show "order_inv w \<and> t \<in> set (task_calls w) \<and> launched w t = launched w t"
      using assms by simp
  next
    fix v entry rest
    assume v: "order_inv v \<and> t \<in> set (task_calls v) \<and> launched v t = launched w t"
      and q: "queue (state v) = entry # rest"
    then have "task entry \<noteq> t"
      using head_not_called [OF q] by auto
    with v q show "order_inv (pump_body e v) \<and> t \<in> set (task_calls (pump_body e v))
        \<and> launched (pump_body e v) t = launched w t"
      by (simp add: order_inv_pump_body pump_body_fields)
  qed
  then show ?thesis by simp
qed

lemma pump_keeps_called:
  "order_inv w \<Longrightarrow> t \<in> set (task_calls w) \<Longrightarrow> launched (pump e w) t = launched w t"
  by (simp add: pump_def Let_def pump_loop_keeps_called)

section \<open>Properties of the command queue\<close>








text \<open>
  C9. \<^verbatim>\<open>clearCommandLane\<close> drops the waiting entries without a call on their promises,
  and no later event makes one: if an entry waits in a lane's queue when
  \<^verbatim>\<open>clearCommandLane\<close> runs on that lane, then after any further events the task of the
  entry was never called and the promise returned by \<^verbatim>\<open>enqueueCommandInLane\<close> has
  received neither \<^verbatim>\<open>resolve\<close> nor \<^verbatim>\<open>reject\<close>.
\<close>

theorem cleared_never_settled:
  assumes "run evs Map.empty (cleaned_lane nm) = Some w"
    and "entry \<in> set (queue (state w))"
    and "run evs' (snd (clearCommandLane nm (run evs Map.empty))) (cleaned_lane nm) = Some w'"
  shows "calls_of w' (task entry) = []
    \<and> task entry \<notin> set (task_calls w')
    \<and> launched w' (task entry) = None"
proof -
  let ?L = "run evs Map.empty"
  let ?w0 = "w\<lparr>state := (state w)\<lparr>queue := []\<rparr>\<rparr>"
  have inv: "lane_inv w"
    using assms(1) by (rule reachable_lane_inv)
  have c: "snd (clearCommandLane nm ?L) = step e0 (ClearLane nm) ?L"
    by simp
  have L0: "snd (clearCommandLane nm ?L) (cleaned_lane nm) = Some ?w0"
    using assms(1) by (simp add: clearCommandLane_def Let_def)
  have "distinct (ids w)" "\<forall>t\<in>set (ids w). t < next_task w"
    using inv by (simp_all add: lane_inv_def order_inv_def sorted_wrt_less_distinct)
  with assms(2) have "dropped (task entry) ?w0"
    by (auto simp add: dropped_def ids_def)
  with L0 have "\<exists>w1. run evs' (snd (clearCommandLane nm ?L)) (cleaned_lane nm) = Some w1
      \<and> dropped (task entry) w1"
    by (rule run_dropped)
  with assms(3) have d: "dropped (task entry) w'"
    by simp
  have "lanes_all lane_inv (run evs' (step e0 (ClearLane nm) ?L))"
    by (intro run_lane_inv step_lane_inv) simp
  then have "lane_inv w'"
    using assms(3) unfolding c by (rule lanes_allD)
  from dropped_not_launched [OF this d] show ?thesis
    by simp
qed

theorem cleared_never_settled_witness:
  "run waiting_run Map.empty (cleaned_lane '' x '') \<noteq> None
   \<and> \<lparr>task = 1, enqueuedAt = 0, warnAfterMs = 2000, onWait = False\<rparr>
       \<in> set (queue (state (lane_of (run waiting_run Map.empty) (cleaned_lane '' x ''))))
   \<and> run after_clear_run (snd (clearCommandLane '' x '' (run waiting_run Map.empty)))
       (cleaned_lane '' x '') \<noteq> None
   \<and> calls_of (lane_of (run after_clear_run
         (snd (clearCommandLane '' x '' (run waiting_run Map.empty)))) (cleaned_lane '' x '')) 1 = []"
proof -
  have "run waiting_run Map.empty (cleaned_lane '' x '') \<noteq> None"
    by code_simp
  then obtain w where w: "run waiting_run Map.empty (cleaned_lane '' x '') = Some w"
    by blast
  have "\<lparr>task = 1, enqueuedAt = 0, warnAfterMs = 2000, onWait = False\<rparr>
       \<in> set (queue (state (lane_of (run waiting_run Map.empty) (cleaned_lane '' x ''))))"
    by code_simp
  with w have q: "\<lparr>task = 1, enqueuedAt = 0, warnAfterMs = 2000, onWait = False\<rparr>
       \<in> set (queue (state w))"
    by (simp add: lane_of_def)
  have "run after_clear_run (snd (clearCommandLane '' x '' (run waiting_run Map.empty)))
       (cleaned_lane '' x '') \<noteq> None"
    by code_simp
  then obtain w' where w': "run after_clear_run
      (snd (clearCommandLane '' x '' (run waiting_run Map.empty))) (cleaned_lane '' x '') = Some w'"
    by blast
  from cleared_never_settled [OF w q w'] w q w' show ?thesis
    by (simp add: lane_of_def)
qed



section \<open>Lemmas about the session write lock\<close>

subsection \<open>Re-entrant acquisition and release\<close>

lemma registerCleanupHandlers_eq:
  "registerCleanupHandlers w = w\<lparr>cleanupRegistered := True\<rparr>"
  by (cases w) (simp add: registerCleanupHandlers_def)

lemma acquire_unfold:
  assumes "map_of (files w) (session_dir ps w) = None"
  shows "acquireSessionWriteLock ps w =
     (case HELD_LOCKS w (canonical_path ps w) of
        Some held \<Rightarrow>
          (Inr (Release (canonical_path ps w)),
           (prepared ps w)\<lparr>HELD_LOCKS := (HELD_LOCKS w)(canonical_path ps w \<mapsto>
                                held\<lparr>count := count held + 1\<rparr>)\<rparr>)
      | None \<Rightarrow>
          acquire_loop (canonical_path ps w) (lock_path ps w)
            (case timeoutMs ps of None \<Rightarrow> 10000 | Some v \<Rightarrow> v)
            (case staleMs ps of None \<Rightarrow> 30 * 60 * 1000 | Some v \<Rightarrow> v)
            (clock w) 0 (prepared ps w))"
proof -
  let ?d = "session_dir ps w"
  let ?w0 = "w\<lparr>cleanupRegistered := True\<rparr>"
  let ?w1 = "?w0\<lparr>fs_log := fs_log w @ [Mkdir ?d], dirs := List.insert ?d (dirs w)\<rparr>"
  have m: "fs_mkdir ?d ?w0 = (Inr (), ?w1)"
    using assms by (simp add: fs_mkdir_def Let_def)
  have r: "fs_realpath ?d ?w1 =
      (Inr (case links w ?d of None \<Rightarrow> ?d | Some t \<Rightarrow> t), prepared ps w)"
    by (simp add: fs_realpath_def Let_def prepared_def)
  show ?thesis
    unfolding acquireSessionWriteLock_def registerCleanupHandlers_eq
    by (simp add: Let_def m [unfolded session_dir_def] r [unfolded session_dir_def]
        canonical_path_def lock_path_def session_dir_def prepared_def
        cong: option.case_cong)
qed

lemma acquire_held:
  assumes held: "HELD_LOCKS w (canonical_path ps w) = Some h"
    and nofile: "map_of (files w) (session_dir ps w) = None"
  shows "acquireSessionWriteLock ps w =
     (Inr (Release (canonical_path ps w)),
      (prepared ps w)\<lparr>HELD_LOCKS := (HELD_LOCKS w)(canonical_path ps w \<mapsto>
                           h\<lparr>count := count h + 1\<rparr>)\<rparr>)"
  by (simp add: acquire_unfold [OF nofile] held)

lemma release_keep:
  "HELD_LOCKS w key = Some h \<Longrightarrow> 1 < count h \<Longrightarrow>
   release (Release key) w =
     (Inr (), w\<lparr>HELD_LOCKS := (HELD_LOCKS w)(key \<mapsto> h\<lparr>count := count h - 1\<rparr>)\<rparr>)"
  by simp

lemma release_last:
  "HELD_LOCKS w key = Some h \<Longrightarrow> count h \<le> 1 \<Longrightarrow>
   release (Release key) w =
     fs_rm (lockPath h) (handle_close (handle h) (w\<lparr>HELD_LOCKS := (HELD_LOCKS w)(key := None)\<rparr>))"
  by (simp add: Let_def)

lemma release_last_fields:
  assumes "HELD_LOCKS w key = Some h" "count h \<le> 1"
  shows "HELD_LOCKS (snd (release (Release key) w)) key = None"
    and "open_handles (snd (release (Release key) w)) (handle h) = None"
    and "lockPath h \<notin> set (protected w) \<Longrightarrow>
         map_of (files (snd (release (Release key) w))) (lockPath h) = None"
  using assms
  by (simp_all add: release_last fs_rm_def handle_close_def Let_def delete_notin_dom
      map_of_eq_None_iff)

lemma release_all_replicate:
  assumes "HELD_LOCKS w key = Some h" "count h = int n + int k" "0 < k"
  shows "\<exists>h'. HELD_LOCKS (release_all (replicate n (Release key)) w) key = Some h'
      \<and> count h' = int k \<and> handle h' = handle h \<and> lockPath h' = lockPath h
      \<and> files (release_all (replicate n (Release key)) w) = files w
      \<and> open_handles (release_all (replicate n (Release key)) w) = open_handles w
      \<and> protected (release_all (replicate n (Release key)) w) = protected w"
  using assms
proof (induction n arbitrary: w h)
  case 0
  then show ?case by simp
next
  case (Suc n)
  let ?w1 = "w\<lparr>HELD_LOCKS := (HELD_LOCKS w)(key \<mapsto> h\<lparr>count := count h - 1\<rparr>)\<rparr>"
  have r: "release (Release key) w = (Inr (), ?w1)"
    using Suc.prems by (intro release_keep) simp_all
  have "\<exists>h'. HELD_LOCKS (release_all (replicate n (Release key)) ?w1) key = Some h'
      \<and> count h' = int k \<and> handle h' = handle (h\<lparr>count := count h - 1\<rparr>)
      \<and> lockPath h' = lockPath (h\<lparr>count := count h - 1\<rparr>)
      \<and> files (release_all (replicate n (Release key)) ?w1) = files ?w1
      \<and> open_handles (release_all (replicate n (Release key)) ?w1) = open_handles ?w1
      \<and> protected (release_all (replicate n (Release key)) ?w1) = protected ?w1"
    using Suc.prems by (intro Suc.IH) simp_all
  then show ?case
    by (simp add: r del: release.simps)
qed

lemma release_all_append:
  "release_all (xs @ ys) w = release_all ys (release_all xs w)"
  by (induction xs arbitrary: w) simp_all

lemma closures_replicate:
  "\<forall>c\<in>set cs. c = x \<Longrightarrow> cs = replicate (length cs) x"
  by (induction cs) simp_all

lemma lock_attempt_Return:
  "lock_attempt k lp stale a w = (Return c, w') \<Longrightarrow> c = Release k"
  by (auto simp add: lock_attempt_def lock_contended_def Let_def
      split: prod.splits sum.splits if_splits)

lemma acquire_loop_closure:
  "acquire_loop k lp tmo stale st a w = (Inr c, w') \<Longrightarrow> c = Release k"
proof (induction k lp tmo stale st a w rule: acquire_loop.induct)
  case (1 k lp tmo stale st a w)
  show ?case
  proof (cases "clock w - st < tmo")
    case True
    obtain ctl w1 where la: "lock_attempt k lp stale (a + 1) w = (ctl, w1)"
      by (cases "lock_attempt k lp stale (a + 1) w")
    show ?thesis
    proof (cases ctl)
      case (Return r)
      with "1.prems" True la lock_attempt_Return [of k lp stale "a + 1" w r w1] show ?thesis
        by (subst (asm) acquire_loop.simps) simp
    next
      case (Throw err)
      with "1.prems" True la show ?thesis
        by (subst (asm) acquire_loop.simps) simp
    next
      case Continue
      with "1.prems" True la have "acquire_loop k lp tmo stale st (a + 1) w1 = (Inr c, w')"
        by (subst (asm) acquire_loop.simps) simp
      then show ?thesis
        by (rule "1.IH"(1) [OF True la [symmetric] Continue])
    next
      case (Sleep d)
      with "1.prems" True la have "acquire_loop k lp tmo stale st (a + 1)
          (w1\<lparr>clock := clock w1 + max 1 d\<rparr>) = (Inr c, w')"
        by (subst (asm) acquire_loop.simps) simp
      then show ?thesis
        by (rule "1.IH"(2) [OF True la [symmetric] Sleep])
    qed
  next
    case False
    with "1.prems" show ?thesis
      by (subst (asm) acquire_loop.simps) (simp add: lock_timeout_error_def Let_def split: prod.splits)
  qed
qed

lemma acquire_loop_stop:
  "\<not> clock w - st < tmo \<Longrightarrow>
   acquire_loop k lp tmo stale st a w =
     (Inl (lock_timeout_error tmo (fst (readLockPayload lp w)) lp), snd (readLockPayload lp w))"
  by (subst acquire_loop.simps) (simp add: Let_def split: prod.splits)

lemma acquire_loop_go:
  assumes "clock w - st < tmo" "lock_attempt k lp stale (a + 1) w = (ctl, w1)"
  shows "acquire_loop k lp tmo stale st a w =
     (case ctl of
        Return r \<Rightarrow> (Inr r, w1)
      | Throw err \<Rightarrow> (Inl err, w1)
      | Continue \<Rightarrow> acquire_loop k lp tmo stale st (a + 1) w1
      | Sleep delay \<Rightarrow>
          acquire_loop k lp tmo stale st (a + 1) (w1\<lparr>clock := clock w1 + max 1 delay\<rparr>))"
  using assms by (subst acquire_loop.simps) (simp split: control.splits)

lemma acquire_loop_rule:
  assumes stop: "\<And>v. \<not> clock v - st < tmo \<Longrightarrow>
        Q (Inl (lock_timeout_error tmo (fst (readLockPayload lp v)) lp), snd (readLockPayload lp v))"
    and ret: "\<And>v n r v1. lock_attempt k lp stale n v = (Return r, v1) \<Longrightarrow> Q (Inr r, v1)"
    and thr: "\<And>v n err v1. lock_attempt k lp stale n v = (Throw err, v1) \<Longrightarrow> Q (Inl err, v1)"
  shows "Q (acquire_loop k lp tmo stale st a w)"
  using assms
proof (induction k lp tmo stale st a w rule: acquire_loop.induct)
  case (1 k lp tmo stale st a w)
  show ?case
  proof (cases "clock w - st < tmo")
    case True
    obtain ctl w1 where la: "lock_attempt k lp stale (a + 1) w = (ctl, w1)"
      by (cases "lock_attempt k lp stale (a + 1) w")
    show ?thesis
    proof (cases ctl)
      case (Return r)
      with "1.prems"(2) [of "a + 1" w r w1] la True show ?thesis
        by (simp add: acquire_loop_go [OF True la])
    next
      case (Throw err)
      with "1.prems"(3) [of "a + 1" w err w1] la True show ?thesis
        by (simp add: acquire_loop_go [OF True la])
    next
      case Continue
      have "Q (acquire_loop k lp tmo stale st (a + 1) w1)"
        using "1.prems" by (intro "1.IH"(1) [OF True la [symmetric] Continue]) blast+
      with Continue show ?thesis
        by (simp add: acquire_loop_go [OF True la])
    next
      case (Sleep d)
      have "Q (acquire_loop k lp tmo stale st (a + 1) (w1\<lparr>clock := clock w1 + max 1 d\<rparr>))"
        using "1.prems" by (intro "1.IH"(2) [OF True la [symmetric] Sleep]) blast+
      with Sleep show ?thesis
        by (simp add: acquire_loop_go [OF True la])
    qed
  next
    case False
    with "1.prems"(1) [of w] show ?thesis
      by (simp add: acquire_loop_stop)
  qed
qed

lemma acquire_closure:
  assumes "acquireSessionWriteLock ps w = (Inr c, w')"
  shows "c = Release (canonical_path ps w)"
proof (cases "map_of (files w) (session_dir ps w) = None")
  case True
  show ?thesis
  proof (cases "HELD_LOCKS w (canonical_path ps w)")
    case None
    with assms show ?thesis
      by (simp add: acquire_unfold [OF True]) (rule acquire_loop_closure)
  next
    case (Some h)
    with assms show ?thesis
      by (simp add: acquire_held [OF Some True])
  qed
next
  case False
  then have "fst (acquireSessionWriteLock ps w) = Inl (Errno ''EEXIST'')"
    by (auto simp add: acquireSessionWriteLock_def registerCleanupHandlers_eq fs_mkdir_def
        session_dir_def Let_def)
  with assms show ?thesis by simp
qed

subsection \<open>One pass of the acquisition loop on an existing lock file\<close>

lemma readLockPayload_world:
  "snd (readLockPayload lp w) = w\<lparr>fs_log := fs_log w @ [ReadFile lp]\<rparr>"
  by (simp add: readLockPayload_def fs_readFile_def Let_def
      split: option.splits file_content.splits json.splits)

lemma code_condition:
  "(case (case payload of
            None \<Rightarrow> None
          | Some p \<Rightarrow> if nonempty_text (createdAt p) then Date_parse (createdAt p) else None) of
      None \<Rightarrow> True | Some c \<Rightarrow> clock w - c > stale)
   \<or> \<not> (case payload of
            None \<Rightarrow> False
          | Some p \<Rightarrow> if pid p \<noteq> 0 then isAlive (pid p) w else False)
   \<longleftrightarrow> reclaimable stale payload w"
  by (cases payload)
    (auto simp add: reclaimable_def nonempty_text_def Date_parse_def isAlive_def
      split: date_text.splits option.splits)

lemma isAlive_log [simp]: "isAlive p (w\<lparr>fs_log := l\<rparr>) = isAlive p w"
  by (simp add: isAlive_def)

lemma reclaimable_log [simp]:
  "reclaimable stale payload (w\<lparr>fs_log := l\<rparr>) = reclaimable stale payload w"
  by (simp add: reclaimable_def split: option.splits)

lemma lock_contended_exists:
  "lock_contended lp stale n (Errno ''EEXIST'') w =
     (let w1 = snd (readLockPayload lp w)
      in if reclaimable stale (fst (readLockPayload lp w)) w
         then (case fs_rm lp w1 of (Inl e, w2) \<Rightarrow> (Throw e, w2) | (Inr u, w2) \<Rightarrow> (Continue, w2))
         else (Sleep (min 1000 (50 * n)), w1))"
proof -
  obtain payload w1 where p: "readLockPayload lp w = (payload, w1)"
    by (cases "readLockPayload lp w")
  then have w1: "w1 = w\<lparr>fs_log := fs_log w @ [ReadFile lp]\<rparr>"
    using readLockPayload_world [of lp w] by simp
  have "reclaimable stale payload w1 = reclaimable stale payload w"
    by (simp add: w1)
  then show ?thesis
    unfolding lock_contended_def
    by (simp add: p error_code_def Let_def code_condition del: reclaimable_log)
qed

lemma lock_attempt_exists:
  assumes "path_dirname lp \<in> set (dirs w)" "map_of (files w) lp \<noteq> None"
  shows "lock_attempt k lp stale n w =
     lock_contended lp stale n (Errno ''EEXIST'') (w\<lparr>fs_log := fs_log w @ [OpenWx lp]\<rparr>)"
  using assms by (simp add: lock_attempt_def fs_open_wx_def Let_def)

subsection \<open>Messages\<close>

lemma pump_loop_diag: "prefix (diag w) (diag (pump_loop e w))"
proof (rule pump_loop_rule)
  show "prefix (diag w) (diag w)" by simp
next
  fix v :: lane_world and entry rest
  assume p: "prefix (diag w) (diag v)" and q: "queue (state v) = entry # rest"
  have "prefix (diag v) (diag (pump_body e v))"
    using q by (simp add: pump_body_def launch_def Let_def)
  with p show "prefix (diag w) (diag (pump_body e v))"
    by (rule prefix_order.trans)
qed

lemma pump_diag: "prefix (diag w) (diag (pump e w))"
  using pump_loop_diag [of w e] by (simp add: pump_def Let_def)

lemma readLockPayload_again:
  "fst (readLockPayload lp (snd (readLockPayload lp w))) = fst (readLockPayload lp w)"
  by (simp add: readLockPayload_def fs_readFile_def Let_def
      split: option.splits file_content.splits json.splits)

lemma lock_attempt_Throw:
  "lock_attempt k lp stale n w = (Throw err, w') \<Longrightarrow> \<exists>c. err = Errno c"
  by (auto simp add: lock_attempt_def lock_contended_def fs_open_wx_def handle_writeFile_def
      fs_rm_def error_code_def Let_def
      split: prod.splits sum.splits if_splits option.splits js_value.splits)

lemma acquire_loop_Error:
  "\<forall>m. fst (acquire_loop k lp tmo stale st a w) = Inl (Error m) \<longrightarrow>
       Error m = lock_timeout_error tmo
         (fst (readLockPayload lp (snd (acquire_loop k lp tmo stale st a w)))) lp"
  by (rule acquire_loop_rule)
    (auto simp add: readLockPayload_again dest: lock_attempt_Throw)

lemma acquire_Error:
  assumes "acquireSessionWriteLock ps w = (Inl (Error m), w')"
  shows "Error m = lock_timeout_error (case timeoutMs ps of None \<Rightarrow> 10000 | Some x \<Rightarrow> x)
           (fst (readLockPayload (lock_path ps w) w')) (lock_path ps w)"
proof (cases "map_of (files w) (session_dir ps w) = None")
  case True
  show ?thesis
  proof (cases "HELD_LOCKS w (canonical_path ps w)")
    case None
    with assms acquire_loop_Error [of "canonical_path ps w" "lock_path ps w"
        "case timeoutMs ps of None \<Rightarrow> 10000 | Some x \<Rightarrow> x"
        "case staleMs ps of None \<Rightarrow> 30 * 60 * 1000 | Some v \<Rightarrow> v" "clock w" 0 "prepared ps w"]
    show ?thesis
      by (simp add: acquire_unfold [OF True])
  next
    case (Some h)
    with assms show ?thesis
      by (simp add: acquire_held [OF Some True])
  qed
next
  case False
  then have "fst (acquireSessionWriteLock ps w) = Inl (Errno ''EEXIST'')"
    by (auto simp add: acquireSessionWriteLock_def registerCleanupHandlers_eq fs_mkdir_def
        session_dir_def Let_def)
  with assms show ?thesis by simp
qed

lemma timeout_warning_names:
  "sublist nm (timeout_warning nm d tmo a q)"
  "sublist (show_int d) (timeout_warning nm d tmo a q)"
  "sublist (show_int tmo) (timeout_warning nm d tmo a q)"
proof -
  show "sublist nm (timeout_warning nm d tmo a q)"
    unfolding timeout_warning_def by (rule sublist_appendI)
  have "timeout_warning nm d tmo a q =
      (''lane task timeout: lane='' @ nm @ '' durationMs='') @ show_int d
        @ ('' timeoutMs='' @ show_int tmo @ '' active='' @ show_int a @ '' queued='' @ show_nat q)"
    by (simp add: timeout_warning_def)
  then show "sublist (show_int d) (timeout_warning nm d tmo a q)"
    by (simp only: sublist_appendI)
  have "timeout_warning nm d tmo a q =
      (''lane task timeout: lane='' @ nm @ '' durationMs='' @ show_int d @ '' timeoutMs='')
        @ show_int tmo @ ('' active='' @ show_int a @ '' queued='' @ show_nat q)"
    by (simp add: timeout_warning_def)
  then show "sublist (show_int tmo) (timeout_warning nm d tmo a q)"
    by (simp only: sublist_appendI)
qed

lemma lock_timeout_error_names:
  assumes "lock_timeout_error tmo payload lp = Error m"
  shows "sublist (show_int tmo) m" "sublist lp m"
    "payload = Some p \<Longrightarrow> pid p \<noteq> 0 \<Longrightarrow> sublist (show_int (pid p)) m"
proof -
  define owner where "owner =
    (case payload of None \<Rightarrow> ''unknown''
     | Some p \<Rightarrow> if pid p \<noteq> 0 then ''pid='' @ show_int (pid p) else ''unknown'')"
  have m: "m = ''session file locked (timeout '' @ show_int tmo @ (''ms): '' @ owner @ '' '' @ lp)"
    using assms by (simp add: lock_timeout_error_def owner_def Let_def)
  show "sublist (show_int tmo) m"
    unfolding m by (rule sublist_appendI)
  have "m = (''session file locked (timeout '' @ show_int tmo @ ''ms): '' @ owner @ '' '') @ lp"
    by (simp add: m)
  then show "sublist lp m"
    by (simp only: sublist_append_leftI)
  assume "payload = Some p" "pid p \<noteq> 0"
  then have "m = (''session file locked (timeout '' @ show_int tmo @ ''ms): pid='')
      @ show_int (pid p) @ ('' '' @ lp)"
    by (simp add: m owner_def)
  then show "sublist (show_int (pid p)) m"
    by (simp only: sublist_appendI)
qed


subsection \<open>The sweep of a directory\<close>

lemma payload_cong:
  "map_of (files w') lp = map_of (files w) lp \<Longrightarrow>
   fst (readLockPayload lp w') = fst (readLockPayload lp w)"
  by (simp add: readLockPayload_def fs_readFile_def Let_def
      split: option.splits file_content.splits json.splits)

lemma isAlive_cong: "kill0 w' = kill0 w \<Longrightarrow> isAlive p w' = isAlive p w"
  by (simp add: isAlive_def)

lemma doomed_cong:
  assumes "HELD_LOCKS w' = HELD_LOCKS w" "kill0 w' = kill0 w" "protected w' = protected w"
    "map_of (files w') (path_join directory n) = map_of (files w) (path_join directory n)"
  shows "(orphaned directory w' n \<and> removable directory w' n)
       = (orphaned directory w n \<and> removable directory w n)"
  using assms payload_cong [OF assms(4)] isAlive_cong [OF assms(2)]
  by (simp add: orphaned_def removable_def cong: option.case_cong)

lemma path_join_inj [simp]: "path_join d n = path_join d n' \<longleftrightarrow> n = n'"
  by (simp add: path_join_def)

lemma cleanup_loop_head:
  assumes "suffix ''.lock'' n"
  shows "cleanup_loop directory (n # rest) removed w =
     (if orphaned directory w n \<and> removable directory w n
      then cleanup_loop directory rest (removed + 1)
             (w\<lparr>fs_log := fs_log w @ [ReadFile (path_join directory n), Rm (path_join directory n)],
                files := AList.delete (path_join directory n) (files w)\<rparr>)
      else cleanup_loop directory rest removed
             (w\<lparr>fs_log := fs_log w @
                  (if HELD_LOCKS w (strip_lock_suffix (path_join directory n)) \<noteq> None then []
                   else if orphaned directory w n
                        then [ReadFile (path_join directory n), Rm (path_join directory n)]
                        else [ReadFile (path_join directory n)])\<rparr>))"
proof -
  let ?lp = "path_join directory n"
  obtain payload w1 where p: "readLockPayload ?lp w = (payload, w1)"
    by (cases "readLockPayload ?lp w")
  then have w1: "w1 = w\<lparr>fs_log := fs_log w @ [ReadFile ?lp]\<rparr>"
    and pl: "payload = fst (readLockPayload ?lp w)"
    using readLockPayload_world [of ?lp w] by simp_all
  have same: "w\<lparr>fs_log := fs_log w\<rparr> = w"
    by simp
  show ?thesis
  proof (cases "HELD_LOCKS w (strip_lock_suffix ?lp) = None")
    case False
    then have "\<not> orphaned directory w n"
      by (simp add: orphaned_def)
    with False show ?thesis
      by (simp add: Let_def same)
  next
    case True
    have o: "orphaned directory w n =
        (case payload of None \<Rightarrow> True | Some q \<Rightarrow> \<not> isAlive (pid q) w1)"
      using assms True by (simp add: orphaned_def pl w1 cong: option.case_cong)
    show ?thesis
    proof (cases "orphaned directory w n")
      case False
      with True o show ?thesis
        by (simp add: Let_def p) (simp add: w1)
    next
      case orph: True
      show ?thesis
      proof (cases "removable directory w n")
        case True
        then have "fs_rm ?lp w1 = (Inr (), w\<lparr>fs_log := fs_log w @ [ReadFile ?lp, Rm ?lp],
            files := AList.delete ?lp (files w)\<rparr>)"
          by (simp add: fs_rm_def w1 removable_def Let_def)
        with True orph o \<open>HELD_LOCKS w (strip_lock_suffix ?lp) = None\<close> show ?thesis
          by (simp add: Let_def p)
      next
        case False
        then have "fs_rm ?lp w1 = (Inl (Errno ''EACCES''),
            w\<lparr>fs_log := fs_log w @ [ReadFile ?lp, Rm ?lp]\<rparr>)"
          by (simp add: fs_rm_def w1 removable_def Let_def)
        with False orph o \<open>HELD_LOCKS w (strip_lock_suffix ?lp) = None\<close> show ?thesis
          by (simp add: Let_def p)
      qed
    qed
  qed
qed

lemma cleanup_loop_result:
  assumes "distinct ns" "\<forall>n\<in>set ns. suffix ''.lock'' n"
  shows "fst (cleanup_loop directory ns removed w) =
       removed + int (length (filter (\<lambda>n. orphaned directory w n \<and> removable directory w n) ns))
    \<and> (\<forall>p. map_of (files (snd (cleanup_loop directory ns removed w))) p =
          (if p \<in> path_join directory `
                  set (filter (\<lambda>n. orphaned directory w n \<and> removable directory w n) ns)
           then None else map_of (files w) p))
    \<and> HELD_LOCKS (snd (cleanup_loop directory ns removed w)) = HELD_LOCKS w
    \<and> kill0 (snd (cleanup_loop directory ns removed w)) = kill0 w
    \<and> protected (snd (cleanup_loop directory ns removed w)) = protected w"
  using assms
proof (induction ns arbitrary: removed w)
  case Nil
  then show ?case by simp
next
  case (Cons n ns)
  let ?D = "\<lambda>v m. orphaned directory v m \<and> removable directory v m"
  let ?lp = "path_join directory n"
  have suf: "suffix ''.lock'' n" and d: "distinct ns" "n \<notin> set ns"
    and sufs: "\<forall>m\<in>set ns. suffix ''.lock'' m"
    using Cons.prems by simp_all
  note head = cleanup_loop_head [OF suf, of directory ns removed w]
  show ?case
  proof (cases "?D w n")
    case True
    let ?w2 = "w\<lparr>fs_log := fs_log w @ [ReadFile ?lp, Rm ?lp],
                 files := AList.delete ?lp (files w)\<rparr>"
    have step: "cleanup_loop directory (n # ns) removed w = cleanup_loop directory ns (removed + 1) ?w2"
      using head True by simp
    have same: "?D ?w2 m = ?D w m" if "m \<in> set ns" for m
    proof -
      have "m \<noteq> n" using that d(2) by auto
      then show ?thesis
        by (intro doomed_cong) (simp_all add: delete_conv)
    qed
    then have f: "filter (?D ?w2) ns = filter (?D w) ns"
      by (intro filter_cong) simp_all
    from Cons.IH [OF d(1) sufs, of "removed + 1" ?w2] show ?thesis
      unfolding step f using True by (auto simp add: delete_conv)
  next
    case False
    let ?w2 = "w\<lparr>fs_log := fs_log w @
                  (if HELD_LOCKS w (strip_lock_suffix ?lp) \<noteq> None then []
                   else if orphaned directory w n then [ReadFile ?lp, Rm ?lp]
                        else [ReadFile ?lp])\<rparr>"
    have step: "cleanup_loop directory (n # ns) removed w = cleanup_loop directory ns removed ?w2"
      using head False by simp
    have same: "?D ?w2 m = ?D w m" for m
      by (intro doomed_cong) simp_all
    then have f: "filter (?D ?w2) ns = filter (?D w) ns"
      by simp
    from Cons.IH [OF d(1) sufs, of removed ?w2] show ?thesis
      unfolding step f using False by auto
  qed
qed

lemma is_child_join: "is_child d p \<Longrightarrow> path_join d (drop (length (dir_prefix d)) p) = p"
  by (auto simp add: is_child_def path_join_def prefix_def)

lemma distinct_dir_entries:
  assumes "distinct (map fst fs)"
  shows "distinct (dir_entries d fs)"
proof -
  have "inj_on (drop (length (dir_prefix d))) (set (filter (is_child d) (map fst fs)))"
  proof (rule inj_onI)
    fix p q
    assume "p \<in> set (filter (is_child d) (map fst fs))" "q \<in> set (filter (is_child d) (map fst fs))"
      and e: "drop (length (dir_prefix d)) p = drop (length (dir_prefix d)) q"
    then have c: "is_child d p" "is_child d q"
      by simp_all
    have "p = path_join d (drop (length (dir_prefix d)) p)"
      using c(1) by (rule is_child_join [symmetric])
    also have "\<dots> = path_join d (drop (length (dir_prefix d)) q)"
      by (simp only: e)
    also have "\<dots> = q"
      using c(2) by (rule is_child_join)
    finally show "p = q" .
  qed
  with assms show ?thesis
    by (simp add: dir_entries_def distinct_map)
qed

section \<open>Properties of the session write lock and of the error messages\<close>

text \<open>
  C5 (amended). If the process already holds a lock for the canonical path of the session
  file, \<^verbatim>\<open>acquireSessionWriteLock\<close> makes two file-system calls, the recursive \<^verbatim>\<open>mkdir\<close> of
  the containing directory and its \<^verbatim>\<open>realpath\<close>, which it needs to compute the canonical
  path; it then increments the reference count of the held lock and returns, without
  opening, reading, writing or removing any file. A call of \<^verbatim>\<open>release\<close> that leaves the
  count above zero changes nothing but the count, so that as long as fewer calls of
  \<^verbatim>\<open>release\<close> were made than the count, the handle is open and no file was removed.
\<close>

theorem reentrant_acquire:
  assumes "HELD_LOCKS w (canonical_path ps w) = Some h"
    and "map_of (files w) (session_dir ps w) = None"
  shows "\<exists>w'. acquireSessionWriteLock ps w = (Inr (Release (canonical_path ps w)), w')
    \<and> HELD_LOCKS w' = (HELD_LOCKS w)(canonical_path ps w \<mapsto> h\<lparr>count := count h + 1\<rparr>)
    \<and> files w' = files w
    \<and> open_handles w' = open_handles w
    \<and> fs_log w' = fs_log w @ [Mkdir (session_dir ps w), Realpath (session_dir ps w)]
    \<and> (1 < count h \<longrightarrow>
         release (Release (canonical_path ps w)) w =
           (Inr (), w\<lparr>HELD_LOCKS := (HELD_LOCKS w)(canonical_path ps w \<mapsto>
                                       h\<lparr>count := count h - 1\<rparr>)\<rparr>))
    \<and> (\<forall>n k. count h = int n + int k \<and> 0 < k \<longrightarrow>
         HELD_LOCKS (release_all (replicate n (Release (canonical_path ps w))) w)
           (canonical_path ps w) \<noteq> None
         \<and> files (release_all (replicate n (Release (canonical_path ps w))) w) = files w
         \<and> open_handles (release_all (replicate n (Release (canonical_path ps w))) w)
             = open_handles w)"
proof -
  let ?key = "canonical_path ps w"
  have a: "acquireSessionWriteLock ps w =
     (Inr (Release ?key),
      (prepared ps w)\<lparr>HELD_LOCKS := (HELD_LOCKS w)(?key \<mapsto> h\<lparr>count := count h + 1\<rparr>)\<rparr>)"
    using assms by (rule acquire_held)
  have r: "release (Release ?key) w =
      (Inr (), w\<lparr>HELD_LOCKS := (HELD_LOCKS w)(?key \<mapsto> h\<lparr>count := count h - 1\<rparr>)\<rparr>)"
    if "1 < count h"
    using assms(1) that by (rule release_keep)
  have k: "HELD_LOCKS (release_all (replicate n (Release ?key)) w) ?key \<noteq> None
      \<and> files (release_all (replicate n (Release ?key)) w) = files w
      \<and> open_handles (release_all (replicate n (Release ?key)) w) = open_handles w"
    if "count h = int n + int k \<and> 0 < k" for n k
    using release_all_replicate [OF assms(1), of n k] that by auto
  from a r k show ?thesis
    by (auto simp add: prepared_def simp del: release.simps)
qed

theorem reentrant_acquire_witness:
  "HELD_LOCKS (snd (acquireSessionWriteLock session_a world0))
     (canonical_path session_a (snd (acquireSessionWriteLock session_a world0))) \<noteq> None
   \<and> map_of (files (snd (acquireSessionWriteLock session_a world0)))
       (session_dir session_a (snd (acquireSessionWriteLock session_a world0))) = None
   \<and> fst (acquireSessionWriteLock session_a (snd (acquireSessionWriteLock session_a world0)))
       = Inr (Release ''/s/a.jsonl'')
   \<and> files (snd (acquireSessionWriteLock session_a
         (snd (acquireSessionWriteLock session_a world0))))
       = files (snd (acquireSessionWriteLock session_a world0))"
proof -
  let ?w = "snd (acquireSessionWriteLock session_a world0)"
  have "HELD_LOCKS ?w (canonical_path session_a ?w) \<noteq> None"
    by code_simp
  then obtain h where h: "HELD_LOCKS ?w (canonical_path session_a ?w) = Some h"
    by blast
  have f: "map_of (files ?w) (session_dir session_a ?w) = None"
    by code_simp
  have c: "canonical_path session_a ?w = ''/s/a.jsonl''"
    by code_simp
  from reentrant_acquire [OF h f] h f c show ?thesis
    by auto
qed

text \<open>
  C5 as stated fails: a second acquisition of a path that the process holds does access
  the file system. It calls \<^verbatim>\<open>mkdir\<close> and \<^verbatim>\<open>realpath\<close> on the directory before it looks
  into the registry.
\<close>

theorem reentrant_acquire_touches_fs:
  "HELD_LOCKS (snd (acquireSessionWriteLock session_a world0)) ''/s/a.jsonl'' \<noteq> None
   \<and> fs_log (snd (acquireSessionWriteLock session_a
         (snd (acquireSessionWriteLock session_a world0))))
       = fs_log (snd (acquireSessionWriteLock session_a world0))
           @ [Mkdir ''/s'', Realpath ''/s'']"
  by code_simp

text \<open>
  C10. A \<^verbatim>\<open>release\<close> closure holds nothing but the canonical path: every successful
  acquisition of a path returns the same closure \<open>Release key\<close>, first or re-entrant.
  Every call of a closure for a held path decrements the one reference count of that
  path. So when the count is \<open>n\<close>, any \<open>n\<close> calls of closures for the path, whichever
  acquisitions they came from and however often each is called, leave the path out of
  the registry with the handle closed and the lock file removed (if its removal is
  permitted); after \<open>k < n\<close> of the calls the count is \<open>n - k\<close>.
\<close>

theorem shared_reference_count:
  assumes "HELD_LOCKS w key = Some h"
    and "count h = int (length cs)"
    and "cs \<noteq> []"
    and "\<forall>c\<in>set cs. c = Release key"
    and "lockPath h \<notin> set (protected w)"
  shows "(\<forall>ps v c v'. acquireSessionWriteLock ps v = (Inr c, v') \<longrightarrow>
            c = Release (canonical_path ps v))
    \<and> (\<forall>k<length cs. \<exists>h'. HELD_LOCKS (release_all (take k cs) w) key = Some h'
            \<and> count h' = count h - int k)
    \<and> HELD_LOCKS (release_all cs w) key = None
    \<and> open_handles (release_all cs w) (handle h) = None
    \<and> map_of (files (release_all cs w)) (lockPath h) = None"
proof -
  let ?r = "Release key"
  obtain m where m: "length cs = Suc m"
    using assms(3) by (cases cs) auto
  have cs: "cs = replicate (Suc m) ?r"
    using closures_replicate [OF assms(4)] m by simp
  have part: "\<exists>h'. HELD_LOCKS (release_all (replicate k ?r) w) key = Some h'
      \<and> count h' = int (Suc m - k) \<and> handle h' = handle h \<and> lockPath h' = lockPath h
      \<and> files (release_all (replicate k ?r) w) = files w
      \<and> open_handles (release_all (replicate k ?r) w) = open_handles w
      \<and> protected (release_all (replicate k ?r) w) = protected w"
    if "k < Suc m" for k
    using release_all_replicate [OF assms(1), of k "Suc m - k"] assms(2) m that
    by (simp add: of_nat_diff)
  have c1: "\<forall>ps v c v'. acquireSessionWriteLock ps v = (Inr c, v') \<longrightarrow>
      c = Release (canonical_path ps v)"
    using acquire_closure by blast
  have c2: "\<forall>k<length cs. \<exists>h'. HELD_LOCKS (release_all (take k cs) w) key = Some h'
      \<and> count h' = count h - int k"
  proof (intro allI impI)
    fix k assume k: "k < length cs"
    then have "take k (replicate (Suc m) ?r) = replicate k ?r"
      unfolding take_replicate by (simp add: m min_def)
    then have "take k cs = replicate k ?r"
      using cs by simp
    with part [of k] k m assms(2) show "\<exists>h'. HELD_LOCKS (release_all (take k cs) w) key = Some h'
      \<and> count h' = count h - int k"
      by (auto simp add: of_nat_diff)
  qed
  let ?v = "release_all (replicate m ?r) w"
  from part [of m] obtain h' where h': "HELD_LOCKS ?v key = Some h'" "count h' = 1"
    "handle h' = handle h" "lockPath h' = lockPath h" "protected ?v = protected w"
    by auto
  have "replicate (Suc m) ?r = replicate m ?r @ [?r]"
    by (simp add: replicate_append_same)
  then have "release_all (replicate (Suc m) ?r) w = snd (release ?r ?v)"
    by (simp only: release_all_append release_all.simps)
  then have last: "release_all cs w = snd (release ?r ?v)"
    using cs by simp
  have "lockPath h' \<notin> set (protected ?v)"
    using h' assms(5) by simp
  with release_last_fields [OF h'(1), of ] h' have
    "HELD_LOCKS (snd (release ?r ?v)) key = None"
    "open_handles (snd (release ?r ?v)) (handle h) = None"
    "map_of (files (snd (release ?r ?v))) (lockPath h) = None"
    by (simp_all del: release.simps)
  with c1 c2 last show ?thesis
    by (simp del: release.simps)
qed

theorem shared_reference_count_witness:
  "HELD_LOCKS (snd (acquireSessionWriteLock session_a
      (snd (acquireSessionWriteLock session_a world0)))) ''/s/a.jsonl'' \<noteq> None
   \<and> fst (acquireSessionWriteLock session_a world0) = Inr (Release ''/s/a.jsonl'')
   \<and> fst (acquireSessionWriteLock session_a (snd (acquireSessionWriteLock session_a world0)))
       = Inr (Release ''/s/a.jsonl'')
   \<and> map_of (files (release_all [Release ''/s/a.jsonl'', Release ''/s/a.jsonl'']
        (snd (acquireSessionWriteLock session_a
          (snd (acquireSessionWriteLock session_a world0)))))) ''/s/a.jsonl.lock'' = None
   \<and> HELD_LOCKS (release_all [Release ''/s/a.jsonl'', Release ''/s/a.jsonl'']
        (snd (acquireSessionWriteLock session_a
          (snd (acquireSessionWriteLock session_a world0))))) ''/s/a.jsonl'' = None"
proof -
  let ?w = "snd (acquireSessionWriteLock session_a (snd (acquireSessionWriteLock session_a world0)))"
  let ?cs = "[Release ''/s/a.jsonl'', Release ''/s/a.jsonl'']"
  have "HELD_LOCKS ?w ''/s/a.jsonl'' \<noteq> None"
    by code_simp
  then obtain h where h: "HELD_LOCKS ?w ''/s/a.jsonl'' = Some h"
    by blast
  have v: "map_option count (HELD_LOCKS ?w ''/s/a.jsonl'') = Some 2"
    "map_option lockPath (HELD_LOCKS ?w ''/s/a.jsonl'') = Some ''/s/a.jsonl.lock''"
    "protected ?w = []"
    "fst (acquireSessionWriteLock session_a world0) = Inr (Release ''/s/a.jsonl'')"
    "fst (acquireSessionWriteLock session_a (snd (acquireSessionWriteLock session_a world0)))
       = Inr (Release ''/s/a.jsonl'')"
    by code_simp+
  have a: "count h = int (length ?cs)" "lockPath h \<notin> set (protected ?w)"
    "lockPath h = ''/s/a.jsonl.lock''"
    using h v by simp_all
  have b: "?cs \<noteq> []" "\<forall>c\<in>set ?cs. c = Release ''/s/a.jsonl''"
    by simp_all
  from shared_reference_count [OF h a(1) b a(2)] h v a(3) show ?thesis
    by (simp del: release.simps release_all.simps)
qed

text \<open>
  C4. Let a pass of the acquisition loop begin with the lock file in place, so that the
  exclusive creation fails because the file exists. If the payload cannot be read (no
  object with a number \<^verbatim>\<open>pid\<close> and a text \<^verbatim>\<open>createdAt\<close>, or a \<^verbatim>\<open>createdAt\<close> that is no
  date), or the recorded process is not alive, or the clock minus \<^verbatim>\<open>createdAt\<close> exceeds
  \<open>stale\<close>, the pass removes the lock file (when its removal is permitted) and the loop
  goes on with the next pass at the same time of the clock. Otherwise the pass leaves the
  files alone and the loop goes on after \<open>min 1000 (50 * n)\<close> milliseconds, where \<open>n\<close> is
  the number of the pass.
\<close>

theorem contended_attempt:
  assumes "clock w - startedAt < tmo"
    and "0 \<le> attempt"
    and "path_dirname lp \<in> set (dirs w)"
    and "map_of (files w) lp \<noteq> None"
  shows "(reclaimable stale (fst (readLockPayload lp w)) w \<and> lp \<notin> set (protected w) \<longrightarrow>
      (\<exists>w1. lock_attempt k lp stale (attempt + 1) w = (Continue, w1)
         \<and> map_of (files w1) lp = None \<and> clock w1 = clock w
         \<and> acquire_loop k lp tmo stale startedAt attempt w =
             acquire_loop k lp tmo stale startedAt (attempt + 1) w1))
    \<and> (\<not> reclaimable stale (fst (readLockPayload lp w)) w \<longrightarrow>
      (\<exists>w1. lock_attempt k lp stale (attempt + 1) w =
               (Sleep (min 1000 (50 * (attempt + 1))), w1)
         \<and> files w1 = files w \<and> clock w1 = clock w
         \<and> acquire_loop k lp tmo stale startedAt attempt w =
             acquire_loop k lp tmo stale startedAt (attempt + 1)
               (w1\<lparr>clock := clock w + min 1000 (50 * (attempt + 1))\<rparr>)))"
proof -
  let ?w0 = "w\<lparr>fs_log := fs_log w @ [OpenWx lp]\<rparr>"
  let ?w1 = "snd (readLockPayload lp ?w0)"
  have p: "fst (readLockPayload lp ?w0) = fst (readLockPayload lp w)"
    by (simp add: readLockPayload_def fs_readFile_def Let_def
        split: option.splits file_content.splits json.splits)
  have w1: "?w1 = w\<lparr>fs_log := fs_log w @ [OpenWx lp, ReadFile lp]\<rparr>"
    by (simp add: readLockPayload_world)
  have la: "lock_attempt k lp stale (attempt + 1) w =
      (if reclaimable stale (fst (readLockPayload lp w)) w
       then (case fs_rm lp ?w1 of (Inl e, w2) \<Rightarrow> (Throw e, w2) | (Inr u, w2) \<Rightarrow> (Continue, w2))
       else (Sleep (min 1000 (50 * (attempt + 1))), ?w1))"
    using assms(3,4) by (simp add: lock_attempt_exists lock_contended_exists Let_def p)
  show ?thesis
  proof (cases "reclaimable stale (fst (readLockPayload lp w)) w")
    case True
    have "\<exists>w1. lock_attempt k lp stale (attempt + 1) w = (Continue, w1)
         \<and> map_of (files w1) lp = None \<and> clock w1 = clock w
         \<and> acquire_loop k lp tmo stale startedAt attempt w =
             acquire_loop k lp tmo stale startedAt (attempt + 1) w1"
      if "lp \<notin> set (protected w)"
    proof -
      let ?w2 = "?w1\<lparr>fs_log := fs_log ?w1 @ [Rm lp], files := AList.delete lp (files w)\<rparr>"
      have "fs_rm lp ?w1 = (Inr (), ?w2)"
        using that by (simp add: fs_rm_def Let_def w1)
      with la True have c: "lock_attempt k lp stale (attempt + 1) w = (Continue, ?w2)"
        by simp
      moreover have "map_of (files ?w2) lp = None" "clock ?w2 = clock w"
        by (simp_all add: w1 delete_notin_dom map_of_eq_None_iff)
      moreover have "acquire_loop k lp tmo stale startedAt attempt w =
             acquire_loop k lp tmo stale startedAt (attempt + 1) ?w2"
        by (simp add: acquire_loop_go [OF assms(1) c])
      ultimately show ?thesis
        by blast
    qed
    with True show ?thesis
      by simp
  next
    case False
    with la have s: "lock_attempt k lp stale (attempt + 1) w =
        (Sleep (min 1000 (50 * (attempt + 1))), ?w1)"
      by simp
    have "max 1 (min 1000 (50 * (attempt + 1))) = min 1000 (50 * (attempt + 1))"
      using assms(2) by simp
    then have "acquire_loop k lp tmo stale startedAt attempt w =
        acquire_loop k lp tmo stale startedAt (attempt + 1)
          (?w1\<lparr>clock := clock w + min 1000 (50 * (attempt + 1))\<rparr>)"
      by (simp add: acquire_loop_go [OF assms(1) s] w1)
    moreover have "files ?w1 = files w" "clock ?w1 = clock w"
      by (simp_all add: w1)
    ultimately show ?thesis
      using False s by blast
  qed
qed

theorem contended_attempt_witness:
  "path_dirname ''/s/a.jsonl.lock'' \<in> set (dirs dead_lock_world)
   \<and> map_of (files dead_lock_world) ''/s/a.jsonl.lock'' \<noteq> None
   \<and> reclaimable 1800000 (fst (readLockPayload ''/s/a.jsonl.lock'' dead_lock_world))
        dead_lock_world
   \<and> fst (lock_attempt ''/s/a.jsonl'' ''/s/a.jsonl.lock'' 1800000 1 dead_lock_world) = Continue
   \<and> reclaimable 1800000 (fst (readLockPayload ''/s/a.jsonl.lock'' undated_lock_world))
        undated_lock_world
   \<and> fst (lock_attempt ''/s/a.jsonl'' ''/s/a.jsonl.lock'' 1800000 1 undated_lock_world)
        = Continue
   \<and> \<not> reclaimable 1800000 (fst (readLockPayload ''/s/a.jsonl.lock'' live_lock_world))
        live_lock_world
   \<and> fst (lock_attempt ''/s/a.jsonl'' ''/s/a.jsonl.lock'' 1800000 3 live_lock_world)
        = Sleep 150"
proof -
  let ?lp = "''/s/a.jsonl.lock''"
  have d: "clock dead_lock_world - 1000 < 10000" "path_dirname ?lp \<in> set (dirs dead_lock_world)"
    "map_of (files dead_lock_world) ?lp \<noteq> None"
    "reclaimable 1800000 (fst (readLockPayload ?lp dead_lock_world)) dead_lock_world"
    "?lp \<notin> set (protected dead_lock_world)"
    by code_simp+
  have u: "clock undated_lock_world - 1000 < 10000"
    "path_dirname ?lp \<in> set (dirs undated_lock_world)"
    "map_of (files undated_lock_world) ?lp \<noteq> None"
    "reclaimable 1800000 (fst (readLockPayload ?lp undated_lock_world)) undated_lock_world"
    "?lp \<notin> set (protected undated_lock_world)"
    by code_simp+
  have l: "clock live_lock_world - 1000 < 10000" "path_dirname ?lp \<in> set (dirs live_lock_world)"
    "map_of (files live_lock_world) ?lp \<noteq> None"
    "\<not> reclaimable 1800000 (fst (readLockPayload ?lp live_lock_world)) live_lock_world"
    by code_simp+
  have z: "(0::int) \<le> 0" "(0::int) \<le> 2"
    by simp_all
  from contended_attempt [OF d(1) z(1) d(2,3), of 1800000 "''/s/a.jsonl''"]
    contended_attempt [OF u(1) z(1) u(2,3), of 1800000 "''/s/a.jsonl''"]
    contended_attempt [OF l(1) z(2) l(2,3), of 1800000 "''/s/a.jsonl''"]
    d u l
  show ?thesis
    by auto
qed

text \<open>
  C7 (amended). The rejection that the caller of a timed-out lane task receives is the
  error \<^verbatim>\<open>Lane task timed out after <timeout>ms\<close>: it names the configured timeout and
  nothing else. The lane name, the elapsed time and the configured timeout are named by
  the warning that the timeout path gives to the diagnostic logger. The error with which
  \<^verbatim>\<open>acquireSessionWriteLock\<close> fails after its timeout names the timeout value, the path
  of the lock file and, when a payload with a non-zero pid can be read from the lock
  file, that pid.
\<close>

theorem descriptive_errors:
  "(launched w t = Some r \<and> timeoutId r = Armed \<and> \<not> settled r \<longrightarrow>
      settle_calls (timer_fired e t w) =
        settle_calls w @
          [(t, Rejected (Error (''Lane task timed out after ''
                                  @ show_int (LANE_TASK_TIMEOUT_MS r) @ ''ms'')))]
      \<and> (\<exists>warning. (Warn, warning) \<in> set (diag (timer_fired e t w))
            \<and> warning = timeout_warning (lane (state w)) (Date_now e - startTime r)
                  (LANE_TASK_TIMEOUT_MS r) (active (state w) - 1) (length (queue (state w)))
            \<and> sublist (lane (state w)) warning
            \<and> sublist (show_int (Date_now e - startTime r)) warning
            \<and> sublist (show_int (LANE_TASK_TIMEOUT_MS r)) warning))
   \<and> (acquireSessionWriteLock ps v = (Inl (Error m), v') \<longrightarrow>
        sublist (show_int (case timeoutMs ps of None \<Rightarrow> 10000 | Some x \<Rightarrow> x)) m
        \<and> sublist (lock_path ps v) m
        \<and> (\<forall>p. fst (readLockPayload (lock_path ps v) v') = Some p \<and> pid p \<noteq> 0 \<longrightarrow>
              sublist (show_int (pid p)) m))"
proof (intro conjI impI)
  assume a: "launched w t = Some r \<and> timeoutId r = Armed \<and> \<not> settled r"
  then have f: "timer_fired e t w = pump e (timeout_done e t r w)"
    by (simp add: timer_fired_active)
  show "settle_calls (timer_fired e t w) =
        settle_calls w @
          [(t, Rejected (Error (''Lane task timed out after ''
                                  @ show_int (LANE_TASK_TIMEOUT_MS r) @ ''ms'')))]"
    by (simp add: f) (simp add: timeout_done_def timeout_error_def)
  let ?warning = "timeout_warning (lane (state w)) (Date_now e - startTime r)
      (LANE_TASK_TIMEOUT_MS r) (active (state w) - 1) (length (queue (state w)))"
  have "(Warn, ?warning) \<in> set (diag (timeout_done e t r w))"
    by (simp add: timeout_done_def)
  moreover have "set (diag (timeout_done e t r w)) \<subseteq> set (diag (timer_fired e t w))"
    unfolding f by (rule set_mono_prefix) (rule pump_diag)
  ultimately have "(Warn, ?warning) \<in> set (diag (timer_fired e t w))"
    by blast
  then show "\<exists>warning. (Warn, warning) \<in> set (diag (timer_fired e t w))
            \<and> warning = ?warning
            \<and> sublist (lane (state w)) warning
            \<and> sublist (show_int (Date_now e - startTime r)) warning
            \<and> sublist (show_int (LANE_TASK_TIMEOUT_MS r)) warning"
    by (simp add: timeout_warning_names)
next
  assume a: "acquireSessionWriteLock ps v = (Inl (Error m), v')"
  let ?tmo = "case timeoutMs ps of None \<Rightarrow> 10000 | Some x \<Rightarrow> x"
  have e: "lock_timeout_error ?tmo (fst (readLockPayload (lock_path ps v) v')) (lock_path ps v)
      = Error m"
    using acquire_Error [OF a] by simp
  show "sublist (show_int ?tmo) m" "sublist (lock_path ps v) m"
    by (rule lock_timeout_error_names [OF e])+
  show "\<forall>p. fst (readLockPayload (lock_path ps v) v') = Some p \<and> pid p \<noteq> 0 \<longrightarrow>
      sublist (show_int (pid p)) m"
    using lock_timeout_error_names(3) [OF e] by blast
qed

theorem descriptive_errors_witness:
  "map_option timeoutId (launched (lane_of (run waiting_run Map.empty) ''x'') 0) = Some Armed
   \<and> map_option settled (launched (lane_of (run waiting_run Map.empty) ''x'') 0) = Some False
   \<and> (Warn, ''lane task timeout: lane=x durationMs=300007 timeoutMs=300000 active=0 queued=2'')
       \<in> set (diag (timer_fired (at_time 300007) 0 (lane_of (run waiting_run Map.empty) ''x'')))
   \<and> fst (acquireSessionWriteLock short_wait live_lock_world)
       = Inl (Error ''session file locked (timeout 120ms): pid=200 /s/a.jsonl.lock'')
   \<and> sublist ''/s/a.jsonl.lock''
        ''session file locked (timeout 120ms): pid=200 /s/a.jsonl.lock''"
proof -
  let ?w = "lane_of (run waiting_run Map.empty) ''x''"
  let ?m = "''session file locked (timeout 120ms): pid=200 /s/a.jsonl.lock''"
  have l: "map_option timeoutId (launched ?w 0) = Some Armed"
    "map_option settled (launched ?w 0) = Some False"
    "map_option startTime (launched ?w 0) = Some 0"
    "map_option LANE_TASK_TIMEOUT_MS (launched ?w 0) = Some 300000"
    by code_simp+
  then obtain r where r: "launched ?w 0 = Some r" "timeoutId r = Armed" "\<not> settled r"
    "startTime r = 0" "LANE_TASK_TIMEOUT_MS r = 300000"
    by auto
  have s: "lane (state ?w) = ''x''" "active (state ?w) = 1" "length (queue (state ?w)) = 2"
    "Date_now (at_time 300007) = 300007"
    "timeout_warning ''x'' 300007 300000 0 2 =
       ''lane task timeout: lane=x durationMs=300007 timeoutMs=300000 active=0 queued=2''"
    by code_simp+
  have a: "fst (acquireSessionWriteLock short_wait live_lock_world) = Inl (Error ?m)"
    "lock_path short_wait live_lock_world = ''/s/a.jsonl.lock''"
    by code_simp+
  then obtain v' where v': "acquireSessionWriteLock short_wait live_lock_world = (Inl (Error ?m), v')"
    by (cases "acquireSessionWriteLock short_wait live_lock_world") simp
  from descriptive_errors [of ?w 0 r "at_time 300007" short_wait live_lock_world ?m v']
    r s l a v'
  show ?thesis
    by auto
qed

text \<open>
  C7 as stated fails for the lane: the rejection of a task that timed out on lane
  \<^verbatim>\<open>main\<close> after 300007 milliseconds names neither the lane nor the elapsed time.
\<close>

theorem timeout_rejection_omits_lane:
  "settle_calls (lane_of (run late_timer_run Map.empty) ''main'')
     = [(0, Rejected (Error ''Lane task timed out after 300000ms''))]
   \<and> \<not> sublist ''main'' ''Lane task timed out after 300000ms''
   \<and> \<not> sublist (show_int (300007 - 0)) ''Lane task timed out after 300000ms''"
  by code_simp



end
